theory Spec2Isabelle
  imports Main "HOL-Library.Word"
begin

unbundle bit_operations_syntax

section \<open>Shared types\<close>

type_synonym byte = "8 word"

text \<open>The error codes of \<^verbatim>\<open>include/7z_ffi.h\<close> (\<^verbatim>\<open>SevenZipErrorCode\<close>).\<close>

datatype SevenZipErrorCode =
    SEVENZIP_OK
  | SEVENZIP_ERROR_OPEN_FILE
  | SEVENZIP_ERROR_INVALID_ARCHIVE
  | SEVENZIP_ERROR_MEMORY
  | SEVENZIP_ERROR_EXTRACT
  | SEVENZIP_ERROR_COMPRESS
  | SEVENZIP_ERROR_INVALID_PARAM
  | SEVENZIP_ERROR_NOT_IMPLEMENTED
  | SEVENZIP_ERROR_UNKNOWN

section \<open>Key derivation (\<^verbatim>\<open>src/encryption_aes.c\<close>)\<close>

definition AES_KEY_SIZE :: nat where
  "AES_KEY_SIZE = 32"

definition SHA256_DIGEST_SIZE :: nat where
  "SHA256_DIGEST_SIZE = 32"

definition AES_BLOCK_SIZE :: nat where
  "AES_BLOCK_SIZE = 16"

definition PBKDF2_ITERATIONS :: nat where
  "PBKDF2_ITERATIONS = 262144"

text \<open>
  SHA-256 itself lives in the LZMA SDK (\<^verbatim>\<open>Sha256.h\<close>) and is a parameter
  \<open>sha256\<close> of the model: the digest of a complete message. The SDK's incremental
  interface is modelled by a context that collects the message: \<^verbatim>\<open>Sha256_Init\<close>
  empties it, \<^verbatim>\<open>Sha256_Update\<close> appends to it, \<^verbatim>\<open>Sha256_Final\<close> hashes it.
\<close>

definition Sha256_Init :: "byte list" where
  "Sha256_Init = []"

definition Sha256_Update :: "byte list \<Rightarrow> byte list \<Rightarrow> byte list" where
  "Sha256_Update ctx data = ctx @ data"

definition Sha256_Final :: "(byte list \<Rightarrow> byte list) \<Rightarrow> byte list \<Rightarrow> byte list" where
  "Sha256_Final sha256 ctx = sha256 ctx"

text \<open>
  The loop \<^verbatim>\<open>for (uint32_t i = 1; i < iterations; i++)\<close> of
  \<^verbatim>\<open>derive_key_from_password\<close>: each round re-initialises the context, feeds it the
  \<^verbatim>\<open>SHA256_DIGEST_SIZE\<close> bytes of the buffer \<^verbatim>\<open>hash\<close> and writes the digest back.
\<close>

function derive_key_rounds ::
  "(byte list \<Rightarrow> byte list) \<Rightarrow> nat \<Rightarrow> nat \<Rightarrow> byte list \<Rightarrow> byte list" where
  "derive_key_rounds sha256 i iterations hash =
     (if i < iterations
      then derive_key_rounds sha256 (i + 1) iterations
             (Sha256_Final sha256 (Sha256_Update Sha256_Init (take SHA256_DIGEST_SIZE hash)))
      else hash)"
  by pat_completeness auto
termination
  by (relation "measure (\<lambda>(sha256, i, iterations, hash). iterations - i)") auto

declare derive_key_rounds.simps [simp del]

text \<open>
  \<^verbatim>\<open>derive_key_from_password(password, salt, salt_len, iterations, key, key_len)\<close>.
  The password is the C string without its terminator (\<^verbatim>\<open>strlen\<close> bytes), the salt its
  \<^verbatim>\<open>salt_len\<close> bytes; the result is what \<^verbatim>\<open>memcpy\<close> stores into \<^verbatim>\<open>key\<close>.
\<close>

definition derive_key_from_password ::
  "(byte list \<Rightarrow> byte list) \<Rightarrow> byte list \<Rightarrow> byte list \<Rightarrow> nat \<Rightarrow> nat \<Rightarrow> byte list" where
  "derive_key_from_password sha256 password salt iterations key_len =
     (let sha = Sha256_Init;
          sha = Sha256_Update sha password;
          sha = Sha256_Update sha salt;
          hash = Sha256_Final sha256 sha;
          hash = derive_key_rounds sha256 1 iterations hash
      in take (if key_len < SHA256_DIGEST_SIZE then key_len else SHA256_DIGEST_SIZE) hash)"

text \<open>
  The key that \<^verbatim>\<open>sevenzip_init_encryption\<close> and \<^verbatim>\<open>sevenzip_init_decryption\<close> hand to
  \<^verbatim>\<open>Aes_SetKey_Enc\<close> / \<^verbatim>\<open>Aes_SetKey_Dec\<close>.
\<close>

definition sevenzip_init_key ::
  "(byte list \<Rightarrow> byte list) \<Rightarrow> byte list \<Rightarrow> byte list \<Rightarrow> byte list" where
  "sevenzip_init_key sha256 password salt =
     derive_key_from_password sha256 password salt PBKDF2_ITERATIONS AES_KEY_SIZE"

text \<open>A stand-in digest of the right length, used only to instantiate the theorems.\<close>

definition toy_digest :: "byte list \<Rightarrow> byte list" where
  "toy_digest m = replicate 32 (of_nat (length m))"

section \<open>The read path (\<^verbatim>\<open>src/archive_extract.c\<close>, \<^verbatim>\<open>src/archive_list.c\<close>)\<close>

text \<open>
  The archive database \<^verbatim>\<open>CSzArEx\<close> that the SDK's \<^verbatim>\<open>SzArEx_Open\<close> builds, reduced to
  what the two functions read from it: per file the UTF-16 name (without its terminating
  zero, so \<^verbatim>\<open>SzArEx_GetFileNameUtf16\<close> returns one more than its length), the directory
  flag, the size, and the optional time and attribute values.
\<close>

record CSzArEx_file =
  FileNameUtf16 :: "16 word list"
  IsDir :: bool
  FileSize :: "64 word"
  MTime :: "64 word option"
  Attribs :: "32 word option"

type_synonym CSzArEx = "CSzArEx_file list"

text \<open>What the extraction does to the outside world, in order.\<close>

datatype fs_op =
    Mkdirs string
  | WriteFile string "byte list"
  | ProgressCall nat nat

text \<open>
  The collaborators that are not part of \<^verbatim>\<open>src/\<close>: the SDK (\<^verbatim>\<open>InFile_Open\<close>,
  \<^verbatim>\<open>SzArEx_Open\<close>, \<^verbatim>\<open>SzArEx_Extract\<close>) and the C library. The outcome of an operation of
  the C library may depend on everything done before, so it takes the operations so far.
  Allocation is taken to succeed.
\<close>

record host =
  InFile_Open :: "string \<Rightarrow> byte list option"
  SzArEx_Open :: "byte list \<Rightarrow> CSzArEx option"
  SzArEx_Extract :: "byte list \<Rightarrow> CSzArEx \<Rightarrow> nat \<Rightarrow> byte list option"
  mkdirs_ok :: "fs_op list \<Rightarrow> string \<Rightarrow> bool"
  fopen_wb_ok :: "fs_op list \<Rightarrow> string \<Rightarrow> bool"
  fwrite_count :: "fs_op list \<Rightarrow> string \<Rightarrow> byte list \<Rightarrow> nat"

definition PATH_SEPARATOR :: char where
  "PATH_SEPARATOR = CHR ''/''"

text \<open>\<^verbatim>\<open>filename[j] = (char)(temp[j] < 256 ? temp[j] : '?')\<close>\<close>

definition utf16_to_chars :: "16 word list \<Rightarrow> string" where
  "utf16_to_chars ws = map (\<lambda>w. if w < 256 then char_of (unat w) else CHR ''?'') ws"

definition build_output_path :: "string \<Rightarrow> string \<Rightarrow> string" where
  "build_output_path output_dir filename = output_dir @ [PATH_SEPARATOR] @ filename"

text \<open>The part of a path before its last separator (\<^verbatim>\<open>strrchr\<close>), if there is one.\<close>

definition before_last_sep :: "string \<Rightarrow> string option" where
  "before_last_sep path =
     (if PATH_SEPARATOR \<in> set path
      then Some (rev (tl (dropWhile (\<lambda>c. c \<noteq> PATH_SEPARATOR) (rev path))))
      else None)"

definition call_progress :: "bool \<Rightarrow> nat \<Rightarrow> nat \<Rightarrow> fs_op list \<Rightarrow> fs_op list" where
  "call_progress progress_callback completed num_files ops =
     (if progress_callback then ops @ [ProgressCall completed num_files] else ops)"

text \<open>
  The loop \<^verbatim>\<open>for (UInt32 i = 0; i < db.NumFiles; i++)\<close> of \<^verbatim>\<open>sevenzip_extract\<close>, from
  file \<open>i\<close> on; a \<^verbatim>\<open>break\<close> returns the error code.
\<close>

fun extract_files ::
  "host \<Rightarrow> byte list \<Rightarrow> CSzArEx \<Rightarrow> string \<Rightarrow> bool \<Rightarrow> nat \<Rightarrow> CSzArEx_file list
     \<Rightarrow> fs_op list \<Rightarrow> fs_op list \<times> SevenZipErrorCode" where
  "extract_files h ar db output_dir cb i [] ops = (ops, SEVENZIP_OK)"
| "extract_files h ar db output_dir cb i (f # fs) ops =
     (let len = length (FileNameUtf16 f) + 1 in
      if len > 1 then
        (let filename = utf16_to_chars (FileNameUtf16 f);
             output_path = build_output_path output_dir filename
         in if IsDir f then
              extract_files h ar db output_dir cb (i + 1) fs
                (call_progress cb (i + 1) (length db) (ops @ [Mkdirs output_path]))
            else
              (case SzArEx_Extract h ar db i of
                 None \<Rightarrow> (ops, SEVENZIP_ERROR_EXTRACT)
               | Some data \<Rightarrow>
                   (let ops1 = (case before_last_sep output_path of
                                  None \<Rightarrow> ops
                                | Some parent \<Rightarrow> ops @ [Mkdirs parent])
                    in if \<not> fopen_wb_ok h ops1 output_path then (ops1, SEVENZIP_ERROR_OPEN_FILE)
                       else
                         (let written = min (fwrite_count h ops1 output_path data) (length data);
                              ops2 = ops1 @ [WriteFile output_path (take written data)]
                          in if written \<noteq> length data then (ops2, SEVENZIP_ERROR_EXTRACT)
                             else extract_files h ar db output_dir cb (i + 1) fs
                                    (call_progress cb (i + 1) (length db) ops2)))))
      else extract_files h ar db output_dir cb (i + 1) fs ops)"

text \<open>
  \<^verbatim>\<open>sevenzip_extract(archive_path, output_dir, password, progress_callback, user_data)\<close>.
  A pointer argument is \<open>None\<close> when it is \<^verbatim>\<open>NULL\<close>; the callback is present or not.
  The result is the operations performed and the returned code.
\<close>

definition sevenzip_extract ::
  "host \<Rightarrow> string option \<Rightarrow> string option \<Rightarrow> string option \<Rightarrow> bool
     \<Rightarrow> fs_op list \<times> SevenZipErrorCode" where
  "sevenzip_extract h archive_path output_dir password progress_callback =
     (case (archive_path, output_dir) of
        (Some ap, Some od) \<Rightarrow>
          (case InFile_Open h ap of
             None \<Rightarrow> ([], SEVENZIP_ERROR_OPEN_FILE)
           | Some ar \<Rightarrow>
               (case SzArEx_Open h ar of
                  None \<Rightarrow> ([], SEVENZIP_ERROR_INVALID_ARCHIVE)
                | Some db \<Rightarrow>
                    if \<not> mkdirs_ok h [] od then ([Mkdirs od], SEVENZIP_ERROR_OPEN_FILE)
                    else extract_files h ar db od progress_callback 0 db [Mkdirs od]))
      | _ \<Rightarrow> ([], SEVENZIP_ERROR_INVALID_PARAM))"

text \<open>\<^verbatim>\<open>SevenZipEntry\<close> (fields prefixed with \<open>entry_\<close>); the name stays \<^verbatim>\<open>NULL\<close> for an entry with an empty name.\<close>

record SevenZipEntry =
  entry_name :: "string option"
  entry_size :: "64 word"
  entry_packed_size :: "64 word"
  entry_modified_time :: "64 word"
  entry_attributes :: "32 word"
  entry_is_directory :: bool

definition list_entry :: "CSzArEx_file \<Rightarrow> SevenZipEntry" where
  "list_entry f =
     \<lparr> entry_name = (if length (FileNameUtf16 f) + 1 > 1
                then Some (utf16_to_chars (FileNameUtf16 f)) else None),
       entry_size = FileSize f,
       entry_packed_size = 0,
       entry_modified_time = (case MTime f of
                          Some ft \<Rightarrow> ft div 10000000 - 11644473600
                        | None \<Rightarrow> 0),
       entry_attributes = (case Attribs f of Some a \<Rightarrow> a | None \<Rightarrow> 0),
       entry_is_directory = IsDir f \<rparr>"

text \<open>
  \<^verbatim>\<open>sevenzip_list(archive_path, password, list)\<close>: the code and, on success, what is
  stored through \<^verbatim>\<open>list\<close> (\<open>list_given\<close> says that this pointer is not \<^verbatim>\<open>NULL\<close>).
\<close>

definition sevenzip_list ::
  "host \<Rightarrow> string option \<Rightarrow> string option \<Rightarrow> bool
     \<Rightarrow> SevenZipErrorCode \<times> SevenZipEntry list option" where
  "sevenzip_list h archive_path password list_given =
     (case archive_path of
        None \<Rightarrow> (SEVENZIP_ERROR_INVALID_PARAM, None)
      | Some ap \<Rightarrow>
          if \<not> list_given then (SEVENZIP_ERROR_INVALID_PARAM, None)
          else
            (case InFile_Open h ap of
               None \<Rightarrow> (SEVENZIP_ERROR_OPEN_FILE, None)
             | Some ar \<Rightarrow>
                 (case SzArEx_Open h ar of
                    None \<Rightarrow> (SEVENZIP_ERROR_INVALID_ARCHIVE, None)
                  | Some db \<Rightarrow> (SEVENZIP_OK, Some (map list_entry db)))))"

section \<open>The 7z number encoding (\<^verbatim>\<open>src/archive_create.c\<close>, \<^verbatim>\<open>src/archive_create_true_streaming.c\<close>)\<close>

text \<open>
  \<^verbatim>\<open>WriteNumber(Byte** buf, uint64_t value)\<close> of \<^verbatim>\<open>archive_create.c\<close> (the same text is in
  \<^verbatim>\<open>archive_create_multivolume.c\<close>): the bytes stored from \<^verbatim>\<open>*buf\<close> on. A cast to
  \<^verbatim>\<open>Byte\<close> is \<open>ucast\<close>, \<^verbatim>\<open>>>\<close> is \<open>drop_bit\<close>, \<^verbatim>\<open>(uint64_t)1 << n\<close> is \<open>push_bit n 1\<close>.
\<close>

definition WriteNumber :: "64 word \<Rightarrow> byte list" where
  "WriteNumber value =
     (if value < 0x80 then
        [ucast value]
      else if value < push_bit 14 1 then
        [ucast (0x80 OR drop_bit 8 value),
         ucast (value AND 0xFF)]
      else if value < push_bit 21 1 then
        [ucast (0xC0 OR (drop_bit 16 value AND 0x1F)),
         ucast (value AND 0xFF),
         ucast (drop_bit 8 value AND 0xFF)]
      else if value < push_bit 28 1 then
        [ucast (0xE0 OR (drop_bit 24 value AND 0x0F)),
         ucast (value AND 0xFF),
         ucast (drop_bit 8 value AND 0xFF),
         ucast (drop_bit 16 value AND 0xFF)]
      else if value < push_bit 35 1 then
        [ucast (0xF0 OR (drop_bit 32 value AND 0x07)),
         ucast (value AND 0xFF),
         ucast (drop_bit 8 value AND 0xFF),
         ucast (drop_bit 16 value AND 0xFF),
         ucast (drop_bit 24 value AND 0xFF)]
      else if value < push_bit 42 1 then
        [ucast (0xF8 OR (drop_bit 40 value AND 0x03)),
         ucast (value AND 0xFF),
         ucast (drop_bit 8 value AND 0xFF),
         ucast (drop_bit 16 value AND 0xFF),
         ucast (drop_bit 24 value AND 0xFF),
         ucast (drop_bit 32 value AND 0xFF)]
      else if value < push_bit 49 1 then
        [ucast (0xFC OR (drop_bit 48 value AND 0x01)),
         ucast (value AND 0xFF),
         ucast (drop_bit 8 value AND 0xFF),
         ucast (drop_bit 16 value AND 0xFF),
         ucast (drop_bit 24 value AND 0xFF),
         ucast (drop_bit 32 value AND 0xFF),
         ucast (drop_bit 40 value AND 0xFF)]
      else if value < push_bit 56 1 then
        [0xFE,
         ucast (value AND 0xFF),
         ucast (drop_bit 8 value AND 0xFF),
         ucast (drop_bit 16 value AND 0xFF),
         ucast (drop_bit 24 value AND 0xFF),
         ucast (drop_bit 32 value AND 0xFF),
         ucast (drop_bit 40 value AND 0xFF),
         ucast (drop_bit 48 value AND 0xFF)]
      else
        [0xFF,
         ucast (value AND 0xFF),
         ucast (drop_bit 8 value AND 0xFF),
         ucast (drop_bit 16 value AND 0xFF),
         ucast (drop_bit 24 value AND 0xFF),
         ucast (drop_bit 32 value AND 0xFF),
         ucast (drop_bit 40 value AND 0xFF),
         ucast (drop_bit 48 value AND 0xFF),
         ucast (drop_bit 56 value AND 0xFF)])"

text \<open>
  Modelled from the spec: the decoder (\<^verbatim>\<open>ReadNumber\<close> of the LZMA SDK's \<^verbatim>\<open>7zArcIn.c\<close>) is
  not under \<^verbatim>\<open>src/\<close>. Section 4.1 of the specification: the first byte has a prefix of
  \<open>k\<close> set bits followed by a zero bit, \<open>k\<close> is the number of additional bytes
  (at most 8), the remaining low bits of the first byte are the high bits of the value and
  the additional bytes carry the rest in little-endian order. The decoder returns the value
  and the number of bytes it consumed, and \<open>None\<close> when the input is too short.
\<close>

definition leading_ones :: "byte \<Rightarrow> nat" where
  "leading_ones b =
     (if \<not> bit b 7 then 0 else if \<not> bit b 6 then 1 else if \<not> bit b 5 then 2
      else if \<not> bit b 4 then 3 else if \<not> bit b 3 then 4 else if \<not> bit b 2 then 5
      else if \<not> bit b 1 then 6 else if \<not> bit b 0 then 7 else 8)"

fun le_value :: "byte list \<Rightarrow> 64 word" where
  "le_value [] = 0"
| "le_value (b # bs) = ucast b OR push_bit 8 (le_value bs)"

definition ReadNumber :: "byte list \<Rightarrow> (64 word \<times> nat) option" where
  "ReadNumber bs =
     (case bs of
        [] \<Rightarrow> None
      | first # rest \<Rightarrow>
          (let k = leading_ones first in
           if length rest < k then None
           else Some (push_bit (8 * k) (ucast (take_bit (7 - k) first)) OR le_value (take k rest),
                      k + 1)))"


text \<open>
  \<^verbatim>\<open>write_number\<close> of \<^verbatim>\<open>archive_create_true_streaming.c\<close>: four short forms, and the
  nine-byte form for every larger value; \<open>write_number_tail\<close> is its loop
  \<^verbatim>\<open>for (int i = 0; i < 8; i++) *p++ = (value >> (i * 8)) & 0xFF\<close>.
\<close>

definition write_number_tail :: "64 word \<Rightarrow> byte list" where
  "write_number_tail value = map (\<lambda>i. ucast (drop_bit (i * 8) value AND 0xFF)) [0..<8]"

definition write_number :: "64 word \<Rightarrow> byte list" where
  "write_number value =
     (if value < 0x80 then
        [ucast value]
      else if value < push_bit 14 1 then
        [ucast (0x80 OR drop_bit 8 value),
         ucast (value AND 0xFF)]
      else if value < push_bit 21 1 then
        [ucast (0xC0 OR (drop_bit 16 value AND 0x1F)),
         ucast (value AND 0xFF),
         ucast (drop_bit 8 value AND 0xFF)]
      else if value < push_bit 28 1 then
        [ucast (0xE0 OR (drop_bit 24 value AND 0x0F)),
         ucast (value AND 0xFF),
         ucast (drop_bit 8 value AND 0xFF),
         ucast (drop_bit 16 value AND 0xFF)]
      else
        0xFF # write_number_tail value)"

text \<open>
  Notions used to state and prove the properties of the encoders: the \<open>k\<close> low bytes of
  a value in little-endian order, the number of additional bytes of the shortest form, and
  the first byte of the form with \<open>k < 8\<close> additional bytes.
\<close>

definition le_bytes :: "nat \<Rightarrow> 64 word \<Rightarrow> byte list" where
  "le_bytes k v = map (\<lambda>i. ucast (drop_bit (8 * i) v)) [0..<k]"

definition varint_k :: "64 word \<Rightarrow> nat" where
  "varint_k v =
     (if v < 2 ^ 7 then 0 else if v < 2 ^ 14 then 1 else if v < 2 ^ 21 then 2
      else if v < 2 ^ 28 then 3 else if v < 2 ^ 35 then 4 else if v < 2 ^ 42 then 5
      else if v < 2 ^ 49 then 6 else if v < 2 ^ 56 then 7 else 8)"

definition first_byte :: "nat \<Rightarrow> 64 word \<Rightarrow> byte" where
  "first_byte k v = ucast (push_bit (8 - k) (mask k) OR (drop_bit (8 * k) v AND mask (7 - k)) :: 64 word)"

section \<open>AES-256-CBC decryption (\<^verbatim>\<open>src/encryption_aes.c\<close>)\<close>

text \<open>
  The loop \<^verbatim>\<open>for (i = ciphertext_len - padding_byte; i < ciphertext_len; i++)\<close> that
  verifies the padding: \<open>False\<close> is its early \<^verbatim>\<open>return SEVENZIP_ERROR_EXTRACT\<close>.
\<close>

function verify_padding :: "byte list \<Rightarrow> byte \<Rightarrow> nat \<Rightarrow> nat \<Rightarrow> bool" where
  "verify_padding plaintext padding_byte i ciphertext_len =
     (if i < ciphertext_len
      then (if plaintext ! i \<noteq> padding_byte then False
            else verify_padding plaintext padding_byte (i + 1) ciphertext_len)
      else True)"
  by pat_completeness auto
termination
  by (relation "measure (\<lambda>(plaintext, padding_byte, i, ciphertext_len). ciphertext_len - i)") auto

declare verify_padding.simps [simp del]

text \<open>
  \<^verbatim>\<open>sevenzip_decrypt_data(aes_context, iv, ciphertext, ciphertext_len, plaintext,
  plaintext_len)\<close>. The block cipher is the SDK's \<^verbatim>\<open>g_AesCbc_Decode\<close>, a parameter
  \<open>AesCbc_Decode\<close> that maps key schedule, IV and buffer to the decrypted buffer of the same
  length. A pointer argument is \<open>None\<close> when it is \<^verbatim>\<open>NULL\<close>; \<open>plaintext_cap\<close> is the
  capacity passed in \<^verbatim>\<open>*plaintext_len\<close>. The result is the code and the first
  \<^verbatim>\<open>*plaintext_len\<close> bytes of \<^verbatim>\<open>plaintext\<close> when the function returns; for an empty
  ciphertext the source reads \<^verbatim>\<open>plaintext[-1]\<close>, which has no defined result (\<open>None\<close>).
\<close>

definition sevenzip_decrypt_data ::
  "('ctx \<Rightarrow> byte list \<Rightarrow> byte list \<Rightarrow> byte list) \<Rightarrow> 'ctx option \<Rightarrow> byte list option
     \<Rightarrow> byte list option \<Rightarrow> nat option \<Rightarrow> (SevenZipErrorCode \<times> byte list) option" where
  "sevenzip_decrypt_data AesCbc_Decode aes_context iv ciphertext plaintext_cap =
     (case (aes_context, iv, ciphertext, plaintext_cap) of
        (Some ctx, Some iv', Some ct, Some cap) \<Rightarrow>
          (let ciphertext_len = length ct in
           if ciphertext_len mod AES_BLOCK_SIZE \<noteq> 0 then Some (SEVENZIP_ERROR_INVALID_PARAM, [])
           else if cap < ciphertext_len then Some (SEVENZIP_ERROR_MEMORY, [])
           else if ciphertext_len = 0 then None
           else
             (let plaintext = take ciphertext_len (AesCbc_Decode ctx iv' ct);
                  padding_byte = plaintext ! (ciphertext_len - 1)
              in if padding_byte > 0 \<and> padding_byte \<le> of_nat AES_BLOCK_SIZE then
                   (if verify_padding plaintext padding_byte
                         (ciphertext_len - unat padding_byte) ciphertext_len
                    then Some (SEVENZIP_OK, take (ciphertext_len - unat padding_byte) plaintext)
                    else Some (SEVENZIP_ERROR_EXTRACT, []))
                 else Some (SEVENZIP_OK, take ciphertext_len plaintext)))
      | _ \<Rightarrow> Some (SEVENZIP_ERROR_INVALID_PARAM, []))"

text \<open>
  A stand-in for the cipher that leaves the buffer as it is, so that the bytes given as
  ciphertext are the bytes the padding check sees.
\<close>

definition no_cipher :: "unit \<Rightarrow> byte list \<Rightarrow> byte list \<Rightarrow> byte list" where
  "no_cipher ctx iv buf = buf"

section \<open>The incompressibility judgment (\<^verbatim>\<open>src/archive_create.c\<close>, \<^verbatim>\<open>src/archive_create_multivolume.c\<close>)\<close>

text \<open>
  The first loop of \<^verbatim>\<open>is_data_compressible\<close>, \<^verbatim>\<open>freq[data[i]]++\<close> over the sample, on the
  array \<^verbatim>\<open>size_t freq[256]\<close> as a list of 256 counters.
\<close>

fun count_frequencies :: "byte list \<Rightarrow> nat list \<Rightarrow> nat list" where
  "count_frequencies [] freq = freq"
| "count_frequencies (b # bs) freq = count_frequencies bs (freq[unat b := freq ! unat b + 1])"

text \<open>The second loop: \<^verbatim>\<open>if (freq[i] > threshold) unique_bytes++\<close> for the 256 counters.\<close>

fun count_above :: "nat \<Rightarrow> nat list \<Rightarrow> nat" where
  "count_above threshold [] = 0"
| "count_above threshold (f # fs) = (if f > threshold then 1 else 0) + count_above threshold fs"

text \<open>The value of \<^verbatim>\<open>unique_bytes\<close> after the two loops, for a sample of \<open>sample_size\<close> bytes.\<close>

definition unique_bytes :: "byte list \<Rightarrow> nat \<Rightarrow> nat" where
  "unique_bytes data sample_size =
     (let freq = count_frequencies (take sample_size data) (replicate 256 0);
          threshold = sample_size div 512
      in count_above threshold freq)"

text \<open>
  \<^verbatim>\<open>is_data_compressible(data, size)\<close> of \<^verbatim>\<open>archive_create.c\<close>; the data is the list of its
  \<^verbatim>\<open>size\<close> bytes and the result \<^verbatim>\<open>1\<close> is \<open>True\<close>.
\<close>

definition is_data_compressible :: "byte list \<Rightarrow> bool" where
  "is_data_compressible data =
     (let size = length data in
      if size < 1024 then True
      else (let sample_size = (if size < 65536 then size else 65536)
            in unique_bytes data sample_size < 220))"

text \<open>
  \<^verbatim>\<open>is_data_compressible\<close> of \<^verbatim>\<open>archive_create_multivolume.c\<close>: the same text with the
  bound 200.
\<close>

definition mv_is_data_compressible :: "byte list \<Rightarrow> bool" where
  "mv_is_data_compressible data =
     (let size = length data in
      if size < 1024 then True
      else (let sample_size = (if size < 65536 then size else 65536)
            in unique_bytes data sample_size < 200))"

text \<open>
  The judgment in the words of the specification: over the first \<open>min(len, 64 KiB)\<close>
  bytes, the number of byte values whose frequency exceeds \<open>sample_len / 512\<close>.
\<close>

definition sample_len :: "byte list \<Rightarrow> nat" where
  "sample_len data = min (length data) 65536"

definition frequent_byte_values :: "byte list \<Rightarrow> nat" where
  "frequent_byte_values data =
     card {b. count_list (take (sample_len data) data) b > sample_len data div 512}"

text \<open>Payloads used to instantiate the theorems.\<close>

definition all_bytes :: "byte list" where
  "all_bytes = map of_nat [0..<256]"

definition all_bytes_4 :: "byte list" where
  "all_bytes_4 = all_bytes @ all_bytes @ all_bytes @ all_bytes"

definition zeros_1024 :: "byte list" where
  "zeros_1024 = replicate 1024 0"

section \<open>The volume source (\<^verbatim>\<open>src/archive_extract_split.c\<close>)\<close>

text \<open>
  The files on disk: a path that \<^verbatim>\<open>fopen(path, "rb")\<close> can open maps to its bytes. Paths
  are taken to fit the 1024-byte buffers of the source, and allocation to succeed.
\<close>

type_synonym disk = "string \<rightharpoonup> byte list"

text \<open>\<^verbatim>\<open>MultiVolumeInStream\<close> as \<^verbatim>\<open>open_split_volumes\<close> initialises it; an open handle is the
  path it was opened with.\<close>

record MultiVolumeInStream =
  volumes :: "string list"
  volume_count :: nat
  volume_sizes :: "nat list"
  volume_offsets :: "nat list"
  total_size :: nat
  current_volume :: nat
  current_pos :: nat
  bytes_extracted :: nat

definition decimal_digit :: "nat \<Rightarrow> char" where
  "decimal_digit d =
     (if d = 0 then CHR ''0'' else if d = 1 then CHR ''1'' else if d = 2 then CHR ''2''
      else if d = 3 then CHR ''3'' else if d = 4 then CHR ''4'' else if d = 5 then CHR ''5''
      else if d = 6 then CHR ''6'' else if d = 7 then CHR ''7'' else if d = 8 then CHR ''8''
      else CHR ''9'')"

text \<open>\<^verbatim>\<open>snprintf(volume_path, sizeof(volume_path), "%s.%03d", base_path, i)\<close> for \<open>i < 1000\<close>.\<close>

definition volume_path :: "string \<Rightarrow> nat \<Rightarrow> string" where
  "volume_path base_path i =
     base_path @ [CHR ''.'', decimal_digit (i div 100 mod 10), decimal_digit (i div 10 mod 10),
                  decimal_digit (i mod 10)]"

text \<open>
  The start of \<^verbatim>\<open>open_split_volumes\<close>: a suffix of a dot, a decimal digit and two more
  characters is removed from the path.
\<close>

definition strip_volume_suffix :: "string \<Rightarrow> string" where
  "strip_volume_suffix first_volume_path =
     (let len = length first_volume_path in
      if len > 4 \<and> first_volume_path ! (len - 4) = CHR ''.''
         \<and> first_volume_path ! (len - 3) \<in> set ''0123456789''
      then take (len - 4) first_volume_path
      else first_volume_path)"

text \<open>
  The loop \<^verbatim>\<open>for (int i = 1; i <= 999; i++)\<close>, from \<open>i\<close> on, with the volumes opened so
  far and their sizes; a \<^verbatim>\<open>break\<close> returns them.
\<close>

function scan_volumes :: "disk \<Rightarrow> string \<Rightarrow> nat \<Rightarrow> (string \<times> nat) list \<Rightarrow> (string \<times> nat) list" where
  "scan_volumes fs base_path i opened =
     (if i \<le> 999 then
        (if i = 1 then
           (case fs (base_path @ ''.001'') of
              Some f \<Rightarrow> scan_volumes fs base_path (i + 1) (opened @ [(base_path @ ''.001'', length f)])
            | None \<Rightarrow>
                (case fs base_path of
                   Some f \<Rightarrow> scan_volumes fs base_path (i + 1) (opened @ [(base_path, length f)])
                 | None \<Rightarrow> opened))
         else
           (case fs (volume_path base_path i) of
              Some f \<Rightarrow> scan_volumes fs base_path (i + 1) (opened @ [(volume_path base_path i, length f)])
            | None \<Rightarrow> opened))
      else opened)"
  by pat_completeness auto
termination
  by (relation "measure (\<lambda>(fs, base_path, i, opened). 1000 - i)") auto

declare scan_volumes.simps [simp del]

text \<open>\<^verbatim>\<open>offsets[0] = 0; offsets[i + 1] = offsets[i] + sizes[i]\<close>\<close>

fun cumulative_offsets :: "nat \<Rightarrow> nat list \<Rightarrow> nat list" where
  "cumulative_offsets off [] = [off]"
| "cumulative_offsets off (s # sizes) = off # cumulative_offsets (off + s) sizes"

text \<open>\<^verbatim>\<open>open_split_volumes\<close>: \<open>None\<close> is its result \<^verbatim>\<open>0\<close>, otherwise the stream it set up.\<close>

definition open_split_volumes :: "disk \<Rightarrow> string \<Rightarrow> MultiVolumeInStream option" where
  "open_split_volumes fs first_volume_path =
     (let base_path = strip_volume_suffix first_volume_path;
          opened = scan_volumes fs base_path 1 [];
          count = length opened
      in if count = 0 then None
         else
           (let offsets = cumulative_offsets 0 (map snd opened)
            in Some \<lparr> volumes = map fst opened, volume_count = count,
                      volume_sizes = map snd opened, volume_offsets = offsets,
                      total_size = offsets ! count, current_volume = 0, current_pos = 0,
                      bytes_extracted = 0 \<rparr>))"

text \<open>
  The start of \<^verbatim>\<open>sevenzip_extract_streaming\<close>, up to the opening of the volumes: the
  error it returns there, if any.
\<close>

definition sevenzip_extract_streaming_open ::
  "disk \<Rightarrow> string option \<Rightarrow> string option \<Rightarrow> SevenZipErrorCode + MultiVolumeInStream" where
  "sevenzip_extract_streaming_open fs archive_path output_dir =
     (case (archive_path, output_dir) of
        (Some ap, Some od) \<Rightarrow>
          (case open_split_volumes fs ap of
             None \<Rightarrow> Inl SEVENZIP_ERROR_OPEN_FILE
           | Some in_stream \<Rightarrow> Inr in_stream)
      | _ \<Rightarrow> Inl SEVENZIP_ERROR_INVALID_PARAM)"

text \<open>Disks used to instantiate the theorems.\<close>

definition disk_with_gap :: disk where
  "disk_with_gap = [''a.7z.001'' \<mapsto> [1, 2, 3], ''a.7z.003'' \<mapsto> [4, 5]]"

definition disk_two_volumes :: disk where
  "disk_two_volumes = [''a.7z.001'' \<mapsto> [1, 2, 3], ''a.7z.002'' \<mapsto> [4, 5]]"

definition disk_single :: disk where
  "disk_single = [''a.7z'' \<mapsto> [1, 2, 3]]"

section \<open>The archive writer (\<^verbatim>\<open>src/archive_create.c\<close>)\<close>

text \<open>
  \<^verbatim>\<open>memcpy(p, &x, n)\<close> and \<^verbatim>\<open>fwrite(&x, n, 1, f)\<close> of an integer store its bytes in the
  host's order; the model takes a little-endian host, as the source does.
\<close>

definition le32 :: "32 word \<Rightarrow> byte list" where
  "le32 w = map (\<lambda>i. ucast (drop_bit (8 * i) w)) [0..<4]"

definition le64 :: "64 word \<Rightarrow> byte list" where
  "le64 w = map (\<lambda>i. ucast (drop_bit (8 * i) w)) [0..<8]"

text \<open>
  A \<^verbatim>\<open>FILE*\<close> opened with \<^verbatim>\<open>"wb"\<close>: its bytes and the position. \<^verbatim>\<open>fwrite\<close> overwrites
  from the position on and extends the file; every write is taken to succeed (the writer
  does not check its writes), and no seek goes beyond the end.
\<close>

record cfile =
  content :: "byte list"
  pos :: nat

definition fopen_wb :: cfile where
  "fopen_wb = \<lparr> content = [], pos = 0 \<rparr>"

definition fwrite :: "byte list \<Rightarrow> cfile \<Rightarrow> cfile" where
  "fwrite bytes f =
     \<lparr> content = take (pos f) (content f) @ bytes @ drop (pos f + length bytes) (content f),
       pos = pos f + length bytes \<rparr>"

definition fseek_set :: "nat \<Rightarrow> cfile \<Rightarrow> cfile" where
  "fseek_set offset f = f \<lparr> pos := offset \<rparr>"

definition ftell :: "cfile \<Rightarrow> nat" where
  "ftell f = pos f"

definition k7zSignature :: "byte list" where
  "k7zSignature = [0x37, 0x7A, 0xBC, 0xAF, 0x27, 0x1C]"

text \<open>\<^verbatim>\<open>SevenZFile\<close>; \<open>f_data\<close> is \<open>None\<close> for the \<^verbatim>\<open>NULL\<close> pointer, the name is the C string
  without its terminator.\<close>

record SevenZFile =
  f_name :: string
  f_size :: "64 word"
  f_pack_size :: "64 word"
  f_mtime :: "64 word"
  f_attrib :: "32 word"
  f_crc :: "32 word"
  f_data :: "byte list option"
  f_is_dir :: bool

text \<open>\<^verbatim>\<open>SevenZArchiveBuilder\<close>; \<^verbatim>\<open>file_count\<close> is the length of \<open>files\<close>, and the encoder
  properties are part of the encoder that the model takes as a parameter.\<close>

record SevenZArchiveBuilder =
  files :: "SevenZFile list"
  lzma2_prop_byte :: byte
  use_copy_codec :: bool

text \<open>
  The LZMA2 encoder of the SDK, with its properties set: for the whole input it yields the
  property byte (\<^verbatim>\<open>Lzma2Enc_WriteProperties\<close>) and the encoded stream, or \<open>None\<close> when
  \<^verbatim>\<open>Lzma2Enc_SetProps\<close> or \<^verbatim>\<open>Lzma2Enc_Encode2\<close> fails.
\<close>

type_synonym lzma2_encoder = "byte list \<Rightarrow> (byte \<times> byte list) option"

text \<open>The data of the regular files, as \<^verbatim>\<open>compress_all_files\<close> concatenates it
  (\<^verbatim>\<open>size\<close> bytes of each), with the CRC of each stored in its entry.\<close>

fun total_input_size :: "SevenZFile list \<Rightarrow> nat" where
  "total_input_size [] = 0"
| "total_input_size (f # fs) =
     (if \<not> f_is_dir f \<and> f_data f \<noteq> None then unat (f_size f) else 0) + total_input_size fs"

fun combine_files :: "(byte list \<Rightarrow> 32 word) \<Rightarrow> SevenZFile list \<Rightarrow> byte list \<times> SevenZFile list" where
  "combine_files CrcCalc [] = ([], [])"
| "combine_files CrcCalc (f # fs) =
     (let (rest, fs') = combine_files CrcCalc fs in
      case f_data f of
        Some d \<Rightarrow>
          if \<not> f_is_dir f
          then (take (unat (f_size f)) d @ rest,
                f \<lparr> f_crc := CrcCalc (take (unat (f_size f)) d) \<rparr> # fs')
          else (rest, f # fs')
      | None \<Rightarrow> (rest, f # fs'))"

text \<open>
  \<^verbatim>\<open>compress_all_files\<close>: the error, or the builder with the CRCs and the coder choice,
  the packed stream \<^verbatim>\<open>*output\<close> and its size \<^verbatim>\<open>*output_size\<close>.
\<close>

definition compress_all_files ::
  "(byte list \<Rightarrow> 32 word) \<Rightarrow> lzma2_encoder \<Rightarrow> SevenZArchiveBuilder
     \<Rightarrow> SevenZipErrorCode + (SevenZArchiveBuilder \<times> byte list \<times> nat)" where
  "compress_all_files CrcCalc Lzma2Enc builder =
     (let total = total_input_size (files builder) in
      if total = 0 then Inr (builder, [], 0)
      else
        (let (combined, fs') = combine_files CrcCalc (files builder);
             builder = builder \<lparr> files := fs' \<rparr>
         in if use_copy_codec builder
               \<or> (total > 1024 * 1024 \<and> \<not> is_data_compressible combined)
            then Inr (builder \<lparr> use_copy_codec := True, lzma2_prop_byte := 0 \<rparr>, combined, total)
            else
              (case Lzma2Enc combined of
                 None \<Rightarrow> Inl SEVENZIP_ERROR_COMPRESS
               | Some (prop, out_buf) \<Rightarrow>
                   Inr (builder \<lparr> use_copy_codec := False, lzma2_prop_byte := prop \<rparr>,
                        out_buf, length out_buf))))"

text \<open>
  What the scan guarantees for every entry: the data of a file that was read has the
  length recorded as its size.
\<close>

definition wf_file :: "SevenZFile \<Rightarrow> bool" where
  "wf_file f = (case f_data f of Some d \<Rightarrow> length d = unat (f_size f) | None \<Rightarrow> True)"

subsection \<open>The Header Block\<close>

text \<open>The parts of the header that \<^verbatim>\<open>write_7z_archive\<close> builds in memory, in its order.\<close>

definition pack_info :: "nat \<Rightarrow> byte list" where
  "pack_info pack_size =
     [0x06] @ WriteNumber 0 @ WriteNumber 1 @ [0x09] @ WriteNumber (of_nat pack_size) @ [0x00]"

definition coder_spec :: "SevenZArchiveBuilder \<Rightarrow> byte list" where
  "coder_spec builder =
     (if use_copy_codec builder then [0x01, 0x00]
      else [0x21, 0x21] @ WriteNumber 1 @ [lzma2_prop_byte builder])"

fun total_unpack_size :: "SevenZFile list \<Rightarrow> 64 word" where
  "total_unpack_size [] = 0"
| "total_unpack_size (f # fs) = (if \<not> f_is_dir f then f_size f else 0) + total_unpack_size fs"

definition unpack_info :: "SevenZArchiveBuilder \<Rightarrow> byte list" where
  "unpack_info builder =
     [0x07, 0x0B] @ WriteNumber 1 @ WriteNumber 0 @ WriteNumber 1 @ coder_spec builder
     @ [0x0C] @ WriteNumber (total_unpack_size (files builder)) @ [0x00]"

fun count_non_dirs :: "SevenZFile list \<Rightarrow> nat" where
  "count_non_dirs [] = 0"
| "count_non_dirs (f # fs) = (if \<not> f_is_dir f then 1 else 0) + count_non_dirs fs"

text \<open>
  The loop \<^verbatim>\<open>for (i = 0; i < file_count && written < num_files - 1; i++)\<close> that writes the
  sizes, over the entries still to visit.
\<close>

fun write_sizes :: "SevenZFile list \<Rightarrow> nat \<Rightarrow> nat \<Rightarrow> byte list" where
  "write_sizes [] written num_files = []"
| "write_sizes (f # fs) written num_files =
     (if written < num_files - 1
      then (if \<not> f_is_dir f
            then WriteNumber (f_size f) @ write_sizes fs (written + 1) num_files
            else write_sizes fs written num_files)
      else [])"

definition substream_sizes :: "SevenZFile list \<Rightarrow> byte list" where
  "substream_sizes fs =
     (let num_files = count_non_dirs fs in
      if num_files > 1 then [0x09] @ write_sizes fs 0 num_files else [])"

fun write_crcs :: "SevenZFile list \<Rightarrow> byte list" where
  "write_crcs [] = []"
| "write_crcs (f # fs) = (if \<not> f_is_dir f then le32 (f_crc f) else []) @ write_crcs fs"

definition substreams_info :: "SevenZFile list \<Rightarrow> byte list" where
  "substreams_info fs =
     [0x08, 0x0D] @ WriteNumber (of_nat (count_non_dirs fs)) @ substream_sizes fs
     @ [0x0A, 1] @ write_crcs fs @ [0x00]"

text \<open>
  The bit vector of the EmptyStream property: \<^verbatim>\<open>memset(p, 0, mask_size)\<close>, then
  \<^verbatim>\<open>p[i / 8] |= (1 << (7 - (i % 8)))\<close> for every directory, entry \<open>i\<close> being the first
  of the entries still to visit.
\<close>

fun set_dir_bits :: "SevenZFile list \<Rightarrow> nat \<Rightarrow> byte list \<Rightarrow> byte list" where
  "set_dir_bits [] i p = p"
| "set_dir_bits (f # fs) i p =
     set_dir_bits fs (i + 1)
       (if f_is_dir f then p[i div 8 := (p ! (i div 8)) OR push_bit (7 - i mod 8) 1] else p)"

definition empty_stream_property :: "SevenZFile list \<Rightarrow> byte list" where
  "empty_stream_property fs =
     (if \<exists>f \<in> set fs. f_is_dir f then
        (let mask_size = (length fs + 7) div 8 in
         [0x0E] @ WriteNumber (of_nat mask_size) @ set_dir_bits fs 0 (replicate mask_size 0))
      else [])"

text \<open>A name in UTF-16LE as the writer produces it: each byte of the C string followed by a
  zero byte, and two zero bytes as the terminator.\<close>

definition utf16le_name :: "string \<Rightarrow> byte list" where
  "utf16le_name nm = concat (map (\<lambda>c. [of_char c, 0]) nm) @ [0, 0]"

definition names_property :: "SevenZFile list \<Rightarrow> byte list" where
  "names_property fs =
     (let names_size = sum_list (map (\<lambda>f. (length (f_name f) + 1) * 2) fs) in
      [0x11] @ WriteNumber (of_nat (names_size + 1)) @ [0]
      @ concat (map (\<lambda>f. utf16le_name (f_name f)) fs))"

definition mtime_property :: "SevenZFile list \<Rightarrow> byte list" where
  "mtime_property fs =
     [0x14] @ WriteNumber (of_nat (2 + 8 * length fs)) @ [1, 0]
     @ concat (map (\<lambda>f. le64 (f_mtime f)) fs)"

definition attrib_property :: "SevenZFile list \<Rightarrow> byte list" where
  "attrib_property fs =
     [0x15] @ WriteNumber (of_nat (2 + 4 * length fs)) @ [1, 0]
     @ concat (map (\<lambda>f. le32 (f_attrib f)) fs)"

definition files_info :: "SevenZFile list \<Rightarrow> byte list" where
  "files_info fs =
     [0x05] @ WriteNumber (of_nat (length fs)) @ empty_stream_property fs @ names_property fs
     @ mtime_property fs @ attrib_property fs @ [0x00]"

definition header_block :: "SevenZArchiveBuilder \<Rightarrow> nat \<Rightarrow> byte list" where
  "header_block builder pack_size =
     [0x01, 0x04] @ pack_info pack_size @ unpack_info builder @ substreams_info (files builder)
     @ [0x00] @ files_info (files builder) @ [0x00]"

text \<open>
  \<^verbatim>\<open>write_7z_archive\<close> of \<^verbatim>\<open>archive_create.c\<close>: the code it returns and the bytes of the
  archive file when it returns. \<open>fopen\<close> is taken to succeed.
\<close>

definition write_7z_archive ::
  "(byte list \<Rightarrow> 32 word) \<Rightarrow> lzma2_encoder \<Rightarrow> SevenZArchiveBuilder
     \<Rightarrow> SevenZipErrorCode \<times> byte list" where
  "write_7z_archive CrcCalc Lzma2Enc builder =
     (let f = fopen_wb;
          f = fwrite k7zSignature f;
          f = fwrite [0, 4] f;
          start_crc_pos = ftell f;
          f = fwrite (le32 0) f;
          next_header_offset_pos = ftell f;
          f = fwrite (le64 0) f;
          f = fwrite (le64 0) f;
          f = fwrite (le32 0) f
      in case compress_all_files CrcCalc Lzma2Enc builder of
           Inl compress_err \<Rightarrow> (compress_err, content f)
         | Inr (builder, pack_data, pack_size) \<Rightarrow>
             (let pack_pos = ftell f;
                  f = (if pack_size > 0 then fwrite (take pack_size pack_data) f else f);
                  header = header_block builder pack_size;
                  actual_header_size = length header
              in if actual_header_size > 65536 then (SEVENZIP_ERROR_COMPRESS, content f)
                 else
                   (let header_crc = CrcCalc header;
                        header_offset = (of_nat (ftell f - pack_pos) :: 64 word);
                        f = fwrite header f;
                        f = fseek_set next_header_offset_pos f;
                        f = fwrite (le64 header_offset) f;
                        header_size_field = (of_nat actual_header_size :: 64 word);
                        f = fwrite (le64 header_size_field) f;
                        f = fwrite (le32 header_crc) f;
                        start_header = le64 header_offset @ le64 header_size_field @ le32 header_crc;
                        start_header_crc = CrcCalc start_header;
                        f = fseek_set start_crc_pos f;
                        f = fwrite (le32 start_header_crc) f
                    in (SEVENZIP_OK, content f))))"

text \<open>
  Modelled from the spec: \<^verbatim>\<open>CrcCalc\<close> is the LZMA SDK's and not under \<^verbatim>\<open>src/\<close>; the writers
  take it as a parameter. Section 4.2 of the specification: the IEEE 802.3 polynomial with
  initial value \<open>0xFFFFFFFF\<close> and final XOR \<open>0xFFFFFFFF\<close>, least-significant bit first.
\<close>

definition crc32_shift :: "32 word \<Rightarrow> 32 word" where
  "crc32_shift c = (if bit c 0 then drop_bit 1 c XOR 0xEDB88320 else drop_bit 1 c)"

definition crc32_update :: "32 word \<Rightarrow> byte \<Rightarrow> 32 word" where
  "crc32_update c b = (crc32_shift ^^ 8) (c XOR ucast b)"

definition crc32 :: "byte list \<Rightarrow> 32 word" where
  "crc32 bs = foldl crc32_update 0xFFFFFFFF bs XOR 0xFFFFFFFF"

section \<open>The true-streaming writer (\<^verbatim>\<open>src/archive_create_true_streaming.c\<close>)\<close>

text \<open>\<^verbatim>\<open>FileMetadata\<close>.\<close>

record FileMetadata =
  m_name :: string
  m_full_path :: string
  m_size :: "64 word"
  m_mtime :: "64 word"
  m_attrib :: "32 word"
  m_crc :: "32 word"
  m_is_directory :: bool

text \<open>\<^verbatim>\<open>StreamingArchiveBuilder\<close>, without the progress and buffer fields.\<close>

record StreamingArchiveBuilder =
  s_files :: "FileMetadata list"
  s_total_uncompressed :: "64 word"
  s_packed_size :: nat

text \<open>
  The chunk loop of \<^verbatim>\<open>compress_files_streaming\<close> for one file:
  \<^verbatim>\<open>while (file_bytes_read < file->size)\<close> reads at most \<open>chunk_size\<close> bytes and stops at the
  end of the input. The result is the bytes read, which are written to the temporary
  file as they are.
\<close>

function read_chunks :: "nat \<Rightarrow> byte list \<Rightarrow> nat \<Rightarrow> nat \<Rightarrow> byte list" where
  "read_chunks chunk_size input file_bytes_read file_size =
     (if file_bytes_read < file_size then
        (let to_read = (if file_bytes_read + chunk_size > file_size
                        then file_size - file_bytes_read else chunk_size);
             chunk = take to_read (drop file_bytes_read input)
         in if length chunk = 0 then []
            else chunk @ read_chunks chunk_size input (file_bytes_read + length chunk) file_size)
      else [])"
  by pat_completeness auto
termination
  by (relation "measure (\<lambda>(chunk_size, input, file_bytes_read, file_size).
                            file_size - file_bytes_read)") auto

declare read_chunks.simps [simp del]

text \<open>
  The loop over the files of \<^verbatim>\<open>compress_files_streaming\<close>: \<open>read_file\<close> is the content of
  the file at a path, \<open>None\<close> when \<^verbatim>\<open>fopen\<close> fails. The running CRC of the chunks is
  \<^verbatim>\<open>CrcCalc\<close> of the bytes read. The result is the entries with their CRCs and the bytes
  written to the temporary file.
\<close>

fun compress_file_list ::
  "(byte list \<Rightarrow> 32 word) \<Rightarrow> (string \<Rightarrow> byte list option) \<Rightarrow> nat \<Rightarrow> FileMetadata list
     \<Rightarrow> SevenZipErrorCode + (FileMetadata list \<times> byte list)" where
  "compress_file_list CrcCalc read_file chunk_size [] = Inr ([], [])"
| "compress_file_list CrcCalc read_file chunk_size (file # rest) =
     (if m_is_directory file \<or> m_size file = 0 then
        (case compress_file_list CrcCalc read_file chunk_size rest of
           Inl e \<Rightarrow> Inl e
         | Inr (rest', temp) \<Rightarrow> Inr (file # rest', temp))
      else
        (case read_file (m_full_path file) of
           None \<Rightarrow> Inl SEVENZIP_ERROR_OPEN_FILE
         | Some input \<Rightarrow>
             (let bytes = read_chunks chunk_size input 0 (unat (m_size file)) in
              case compress_file_list CrcCalc read_file chunk_size rest of
                Inl e \<Rightarrow> Inl e
              | Inr (rest', temp) \<Rightarrow> Inr (file \<lparr> m_crc := CrcCalc bytes \<rparr> # rest', bytes @ temp))))"

text \<open>
  \<^verbatim>\<open>compress_files_streaming\<close>; \<open>set_props_ok\<close> is the outcome of \<^verbatim>\<open>Lzma2Enc_SetProps\<close> for
  the encoder that the function creates and does not use.
\<close>

definition compress_files_streaming ::
  "(byte list \<Rightarrow> 32 word) \<Rightarrow> (string \<Rightarrow> byte list option) \<Rightarrow> bool \<Rightarrow> nat
     \<Rightarrow> StreamingArchiveBuilder \<Rightarrow> SevenZipErrorCode + (StreamingArchiveBuilder \<times> byte list)" where
  "compress_files_streaming CrcCalc read_file set_props_ok chunk_size builder =
     (if \<not> set_props_ok then Inl SEVENZIP_ERROR_COMPRESS
      else
        (case compress_file_list CrcCalc read_file chunk_size (s_files builder) of
           Inl e \<Rightarrow> Inl e
         | Inr (fs', temp) \<Rightarrow>
             Inr (builder \<lparr> s_files := fs', s_packed_size := length temp \<rparr>, temp)))"

text \<open>The loop of \<^verbatim>\<open>write_7z_archive\<close> that copies \<open>remaining\<close> bytes of the temporary
  file in blocks of 65536.\<close>

function copy_temp_data :: "byte list \<Rightarrow> nat \<Rightarrow> byte list" where
  "copy_temp_data temp_data remaining =
     (if remaining > 0 then
        (let to_copy = (if remaining < 65536 then remaining else 65536);
             block = take to_copy temp_data
         in if length block = 0 then []
            else block @ copy_temp_data (drop (length block) temp_data) (remaining - length block))
      else [])"
  by pat_completeness auto
termination
  by (relation "measure (\<lambda>(temp_data, remaining). remaining)") auto

declare copy_temp_data.simps [simp del]

fun count_file_streams :: "FileMetadata list \<Rightarrow> nat" where
  "count_file_streams [] = 0"
| "count_file_streams (f # fs) =
     (if \<not> m_is_directory f \<and> m_size f > 0 then 1 else 0) + count_file_streams fs"

text \<open>
  The loop that writes the sizes, entry \<open>i\<close> being the first of \<open>fs\<close>; \<open>all_files\<close> is the
  whole array, of \<open>file_count\<close> entries:
  \<^verbatim>\<open>if (i < file_count - 1 || files[file_count-1].is_directory) write_number(&p, f->size)\<close>.
\<close>

fun streaming_write_sizes :: "FileMetadata list \<Rightarrow> FileMetadata list \<Rightarrow> nat \<Rightarrow> byte list" where
  "streaming_write_sizes all_files [] i = []"
| "streaming_write_sizes all_files (f # fs) i =
     (if \<not> m_is_directory f \<and> m_size f > 0
      then (if i < length all_files - 1 \<or> m_is_directory (all_files ! (length all_files - 1))
            then write_number (m_size f) else [])
      else [])
     @ streaming_write_sizes all_files fs (i + 1)"

fun streaming_write_crcs :: "FileMetadata list \<Rightarrow> byte list" where
  "streaming_write_crcs [] = []"
| "streaming_write_crcs (f # fs) =
     (if \<not> m_is_directory f \<and> m_size f > 0
      then [ucast (m_crc f AND 0xFF), ucast (drop_bit 8 (m_crc f) AND 0xFF),
            ucast (drop_bit 16 (m_crc f) AND 0xFF), ucast (drop_bit 24 (m_crc f) AND 0xFF)]
      else [])
     @ streaming_write_crcs fs"

definition streaming_substream_sizes :: "FileMetadata list \<Rightarrow> byte list" where
  "streaming_substream_sizes fs = [0x09] @ streaming_write_sizes fs fs 0"

definition streaming_substreams_info :: "FileMetadata list \<Rightarrow> byte list" where
  "streaming_substreams_info fs =
     (let file_stream_count = count_file_streams fs in
      if file_stream_count > 1 then
        [0x08, 0x0D] @ write_number (of_nat file_stream_count) @ streaming_substream_sizes fs
        @ [0x0A, 0x01] @ streaming_write_crcs fs @ [0x00]
      else [])"

text \<open>\<^verbatim>\<open>bits[i / 8] |= (0x80 >> (i % 8))\<close> for every directory.\<close>

fun streaming_set_dir_bits :: "FileMetadata list \<Rightarrow> nat \<Rightarrow> byte list \<Rightarrow> byte list" where
  "streaming_set_dir_bits [] i bits = bits"
| "streaming_set_dir_bits (f # fs) i bits =
     streaming_set_dir_bits fs (i + 1)
       (if m_is_directory f
        then bits[i div 8 := (bits ! (i div 8)) OR ucast (drop_bit (i mod 8) (0x80 :: 32 word))]
        else bits)"

definition streaming_empty_stream_property :: "FileMetadata list \<Rightarrow> byte list" where
  "streaming_empty_stream_property fs =
     (if \<exists>f \<in> set fs. m_is_directory f then
        (let bit_bytes = (length fs + 7) div 8 in
         [0x0E] @ write_number (of_nat bit_bytes)
         @ streaming_set_dir_bits fs 0 (replicate bit_bytes 0))
      else [])"

definition streaming_names_property :: "FileMetadata list \<Rightarrow> byte list" where
  "streaming_names_property fs =
     (let names_size = 1 + sum_list (map (\<lambda>f. (length (m_name f) + 1) * 2) fs) in
      [0x11] @ write_number (of_nat names_size) @ [0x00]
      @ concat (map (\<lambda>f. utf16le_name (m_name f)) fs))"

definition streaming_mtime_property :: "FileMetadata list \<Rightarrow> byte list" where
  "streaming_mtime_property fs =
     [0x14] @ write_number (of_nat (2 + length fs * 8)) @ [0x01, 0x00]
     @ concat (map (\<lambda>f. map (\<lambda>j. ucast (drop_bit (j * 8) (m_mtime f) AND 0xFF)) [0..<8]) fs)"

definition streaming_header :: "StreamingArchiveBuilder \<Rightarrow> nat \<Rightarrow> byte list" where
  "streaming_header builder data_size =
     [0x04, 0x06] @ write_number 0 @ write_number 1 @ [0x09] @ write_number (of_nat data_size)
     @ [0x00]
     @ [0x07, 0x0B] @ write_number 1 @ [0x01, 0x00]
     @ [0x0C] @ write_number (s_total_uncompressed builder) @ [0x00]
     @ streaming_substreams_info (s_files builder)
     @ [0x00]
     @ [0x05] @ write_number (of_nat (length (s_files builder)))
     @ streaming_names_property (s_files builder)
     @ streaming_empty_stream_property (s_files builder)
     @ streaming_mtime_property (s_files builder)
     @ [0x00, 0x00]"

text \<open>
  \<^verbatim>\<open>write_7z_archive(builder, archive_path, temp_data, data_size)\<close> of the true-streaming
  writer: the bytes of the archive file when it returns \<^verbatim>\<open>SEVENZIP_OK\<close> (\<open>fopen\<close> and the
  allocation of the header are taken to succeed).
\<close>

definition streaming_write_7z_archive ::
  "(byte list \<Rightarrow> 32 word) \<Rightarrow> StreamingArchiveBuilder \<Rightarrow> byte list \<Rightarrow> nat
     \<Rightarrow> SevenZipErrorCode \<times> byte list" where
  "streaming_write_7z_archive CrcCalc builder temp_data data_size =
     (let archive = fopen_wb;
          archive = fwrite k7zSignature archive;
          archive = fwrite [0, 4] archive;
          start_header_pos = ftell archive;
          archive = fwrite (le32 0) archive;
          next_header_offset = (of_nat data_size :: 64 word);
          archive = fwrite (le64 next_header_offset) archive;
          header_size_pos = ftell archive;
          archive = fwrite (le64 0) archive;
          archive = fwrite (le32 0) archive;
          archive = fwrite (copy_temp_data temp_data data_size) archive;
          header = streaming_header builder data_size;
          header_size = length header;
          archive = fwrite header archive;
          next_header_crc = CrcCalc header;
          next_header_size = (of_nat header_size :: 64 word);
          archive = fseek_set header_size_pos archive;
          archive = fwrite (le64 next_header_size) archive;
          archive = fwrite (le32 next_header_crc) archive;
          start_header = le64 next_header_offset @ le64 next_header_size @ le32 next_header_crc;
          start_header_crc = CrcCalc start_header;
          archive = fseek_set start_header_pos archive;
          archive = fwrite (le32 start_header_crc) archive
      in (SEVENZIP_OK, content archive))"

text \<open>
  Phases 2 and 3 of \<^verbatim>\<open>sevenzip_create_7z_true_streaming\<close>, after the scan has filled the
  builder: compress into the temporary file, then write the archive with
  \<^verbatim>\<open>builder.packed_size\<close> as \<open>data_size\<close>.
\<close>

definition streaming_compress_and_write ::
  "(byte list \<Rightarrow> 32 word) \<Rightarrow> (string \<Rightarrow> byte list option) \<Rightarrow> bool \<Rightarrow> nat
     \<Rightarrow> StreamingArchiveBuilder \<Rightarrow> SevenZipErrorCode \<times> byte list" where
  "streaming_compress_and_write CrcCalc read_file set_props_ok chunk_size builder =
     (case compress_files_streaming CrcCalc read_file set_props_ok chunk_size builder of
        Inl err \<Rightarrow> (err, [])
      | Inr (builder, temp_file) \<Rightarrow>
          streaming_write_7z_archive CrcCalc builder temp_file (s_packed_size builder))"

section \<open>Notions used to state the properties of the headers\<close>

text \<open>The sizes of the entries that are not directories, in file-list order.\<close>

definition non_dir_sizes :: "SevenZFile list \<Rightarrow> 64 word list" where
  "non_dir_sizes fs = map f_size (filter (\<lambda>f. \<not> f_is_dir f) fs)"

text \<open>Bit \<open>i\<close> of a bit vector, most significant bit first within each byte.\<close>

definition empty_stream_bit :: "byte list \<Rightarrow> nat \<Rightarrow> bool" where
  "empty_stream_bit bits i = bit (bits ! (i div 8)) (7 - i mod 8)"

text \<open>The bit-setting loop of both writers, on the directory flags alone.\<close>

fun dir_bits :: "bool list \<Rightarrow> nat \<Rightarrow> byte list \<Rightarrow> byte list" where
  "dir_bits [] i p = p"
| "dir_bits (d # ds) i p =
     dir_bits ds (i + 1) (if d then p[i div 8 := (p ! (i div 8)) OR push_bit (7 - i mod 8) 1] else p)"

text \<open>File lists used to instantiate the theorems.\<close>

definition dir_then_empty_file :: "SevenZFile list" where
  "dir_then_empty_file =
     [\<lparr> f_name = ''d'', f_size = 0, f_pack_size = 0, f_mtime = 0, f_attrib = 0x41ED, f_crc = 0,
        f_data = None, f_is_dir = True \<rparr>,
      \<lparr> f_name = ''e'', f_size = 0, f_pack_size = 0, f_mtime = 0, f_attrib = 0x81A4, f_crc = 0,
        f_data = Some [], f_is_dir = False \<rparr>]"

definition two_files_then_dir :: "FileMetadata list" where
  "two_files_then_dir =
     [\<lparr> m_name = ''a.txt'', m_full_path = ''a.txt'', m_size = 1, m_mtime = 0, m_attrib = 0x81A4,
        m_crc = 0x11223344, m_is_directory = False \<rparr>,
      \<lparr> m_name = ''b.txt'', m_full_path = ''b.txt'', m_size = 2, m_mtime = 0, m_attrib = 0x81A4,
        m_crc = 0x55667788, m_is_directory = False \<rparr>,
      \<lparr> m_name = ''emptydir'', m_full_path = ''emptydir'', m_size = 0, m_mtime = 0,
        m_attrib = 0x41ED, m_crc = 0, m_is_directory = True \<rparr>]"

definition file_empty_file :: "FileMetadata list" where
  "file_empty_file =
     [\<lparr> m_name = ''a'', m_full_path = ''a'', m_size = 1, m_mtime = 0, m_attrib = 0x81A4,
        m_crc = 0, m_is_directory = False \<rparr>,
      \<lparr> m_name = ''e'', m_full_path = ''e'', m_size = 0, m_mtime = 0, m_attrib = 0x81A4,
        m_crc = 0, m_is_directory = False \<rparr>,
      \<lparr> m_name = ''b'', m_full_path = ''b'', m_size = 2, m_mtime = 0, m_attrib = 0x81A4,
        m_crc = 0, m_is_directory = False \<rparr>]"

definition one_empty_file :: "SevenZFile list" where
  "one_empty_file = [dir_then_empty_file ! 1]"

text \<open>
  The layout of a finished archive \<open>out\<close>, for a packed stream of
  \<open>pack_size\<close> bytes and the Header Block \<open>header\<close>.
\<close>

definition signature_header_ok ::
  "(byte list \<Rightarrow> 32 word) \<Rightarrow> byte list \<Rightarrow> nat \<Rightarrow> byte list \<Rightarrow> bool" where
  "signature_header_ok CrcCalc out pack_size header \<longleftrightarrow>
     take 6 out = [0x37, 0x7A, 0xBC, 0xAF, 0x27, 0x1C] \<and> out ! 6 = 0 \<and> out ! 7 = 4
     \<and> take 8 (drop 12 out) = le64 (of_nat pack_size)
     \<and> take 8 (drop 20 out) = le64 (of_nat (length header))
     \<and> take 4 (drop 28 out) = le32 (CrcCalc header)
     \<and> take 4 (drop 8 out) = le32 (CrcCalc (take 20 (drop 12 out)))
     \<and> drop (32 + pack_size) out = header
     \<and> length out = 32 + pack_size + length header"

text \<open>The bytes of a finished archive, part by part.\<close>

definition archive_layout :: "(byte list \<Rightarrow> 32 word) \<Rightarrow> byte list \<Rightarrow> byte list \<Rightarrow> byte list" where
  "archive_layout CrcCalc pack header =
     (let start_header = le64 (of_nat (length pack)) @ le64 (of_nat (length header))
                         @ le32 (CrcCalc header)
      in k7zSignature @ [0, 4] @ le32 (CrcCalc start_header) @ start_header @ pack @ header)"

text \<open>Builders used to instantiate the theorems: one file holding the byte \<open>0x61\<close>, stored
  with the Copy coder, and an encoder that is never reached.\<close>

definition store_one_file :: SevenZArchiveBuilder where
  "store_one_file =
     \<lparr> files = [\<lparr> f_name = ''a'', f_size = 1, f_pack_size = 1, f_mtime = 0, f_attrib = 0x81A4,
                   f_crc = 0, f_data = Some [0x61], f_is_dir = False \<rparr>],
       lzma2_prop_byte = 0, use_copy_codec = True \<rparr>"

definition no_encoder :: lzma2_encoder where
  "no_encoder input = None"

text \<open>The same file with the Copy coder not asked for, and a stand-in for the encoder that
  returns its input.\<close>

definition compress_one_file :: SevenZArchiveBuilder where
  "compress_one_file = store_one_file \<lparr> use_copy_codec := False \<rparr>"

definition plain_encoder :: lzma2_encoder where
  "plain_encoder input = Some (0x18, input)"

definition streaming_one_file :: StreamingArchiveBuilder where
  "streaming_one_file =
     \<lparr> s_files = [\<lparr> m_name = ''a'', m_full_path = ''/in/a'', m_size = 1, m_mtime = 0,
                     m_attrib = 0x81A4, m_crc = 0, m_is_directory = False \<rparr>],
       s_total_uncompressed = 1, s_packed_size = 0 \<rparr>"

definition disk_one_file :: "string \<Rightarrow> byte list option" where
  "disk_one_file = [''/in/a'' \<mapsto> [0x61]]"

section \<open>Creating an archive from input paths\<close>

subsection \<open>The input files\<close>

text \<open>
  What the host holds at a path and below it. \<^verbatim>\<open>stat\<close> fails (\<open>Missing\<close>), or it yields
  \<^verbatim>\<open>st_mode\<close> and \<^verbatim>\<open>st_mtime\<close> of a regular file (\<^verbatim>\<open>S_ISREG\<close>), of a directory (\<^verbatim>\<open>S_ISDIR\<close>)
  or of something else. A regular file has its bytes, \<^verbatim>\<open>st_size\<close> is their number, and a
  flag tells whether it can be opened for reading. A directory has the entries that
  \<^verbatim>\<open>readdir\<close> yields, in that order and without \<^verbatim>\<open>.\<close> and \<^verbatim>\<open>..\<close>, and a flag tells whether
  \<^verbatim>\<open>opendir\<close> succeeds. The model follows the branches for POSIX hosts (\<^verbatim>\<open>#else\<close> of
  \<^verbatim>\<open>#ifdef _WIN32\<close>); the files do not change during a run, allocations succeed, and paths
  are shorter than the buffers that hold them.
\<close>

datatype fs_node =
    Missing
  | Regular "32 word" "64 word" bool "byte list"
  | Folder "32 word" "64 word" bool fs_entries
  | Special "32 word" "64 word"
and fs_entries =
    NoEntries
  | Entry string fs_node fs_entries

text \<open>\<^verbatim>\<open>(uint64_t)st.st_mtime * 10000000ULL + 116444736000000000ULL\<close>\<close>

definition filetime :: "64 word \<Rightarrow> 64 word" where
  "filetime t = t * 10000000 + 116444736000000000"

text \<open>\<^verbatim>\<open>strrchr(path, c)\<close> followed by \<^verbatim>\<open>+ 1\<close>, for a path that holds \<open>c\<close>.\<close>

definition after_last :: "char \<Rightarrow> string \<Rightarrow> string" where
  "after_last c path = rev (takeWhile (\<lambda>x. x \<noteq> c) (rev path))"

datatype SevenZipCompressionLevel =
    SEVENZIP_LEVEL_STORE
  | SEVENZIP_LEVEL_FASTEST
  | SEVENZIP_LEVEL_FAST
  | SEVENZIP_LEVEL_NORMAL
  | SEVENZIP_LEVEL_MAXIMUM
  | SEVENZIP_LEVEL_ULTRA

text \<open>The files that a run leaves on the disk: their paths and their bytes.\<close>

type_synonym written_files = "(string \<times> byte list) list"

subsection \<open>\<^verbatim>\<open>sevenzip_create_7z\<close> (\<^verbatim>\<open>src/archive_create.c\<close>)\<close>

text \<open>
  \<^verbatim>\<open>add_directory_recursive\<close>: the entries of the directory at \<open>dir_path\<close> are appended
  to the builder's files, each directory followed by what it holds. The second function
  is the \<^verbatim>\<open>readdir\<close> loop over the entries still to visit.
\<close>

fun add_directory_recursive ::
  "SevenZFile list \<Rightarrow> string \<Rightarrow> string \<Rightarrow> fs_node \<Rightarrow> SevenZipErrorCode + SevenZFile list"
and add_directory_entries ::
  "SevenZFile list \<Rightarrow> string \<Rightarrow> string \<Rightarrow> fs_entries \<Rightarrow> SevenZipErrorCode + SevenZFile list"
where
  "add_directory_recursive fs dir_path base_path (Folder m t can_open es) =
     (if can_open then add_directory_entries fs dir_path base_path es
      else Inl SEVENZIP_ERROR_OPEN_FILE)"
| "add_directory_recursive fs dir_path base_path Missing = Inl SEVENZIP_ERROR_OPEN_FILE"
| "add_directory_recursive fs dir_path base_path (Regular m t can_open d) =
     Inl SEVENZIP_ERROR_OPEN_FILE"
| "add_directory_recursive fs dir_path base_path (Special m t) = Inl SEVENZIP_ERROR_OPEN_FILE"
| "add_directory_entries fs dir_path base_path NoEntries = Inr fs"
| "add_directory_entries fs dir_path base_path (Entry d_name Missing es) =
     Inl SEVENZIP_ERROR_OPEN_FILE"
| "add_directory_entries fs dir_path base_path (Entry d_name (Folder m t can_open sub) es) =
     (let full_path = dir_path @ ''/'' @ d_name;
          rel_path = dropWhile (\<lambda>c. c = CHR ''/'') (drop (length base_path) full_path);
          file = \<lparr> f_name = rel_path, f_size = 0, f_pack_size = 0, f_mtime = filetime t,
                   f_attrib = m, f_crc = 0, f_data = None, f_is_dir = True \<rparr>
      in case add_directory_recursive (fs @ [file]) full_path base_path
                (Folder m t can_open sub) of
           Inl err \<Rightarrow> Inl err
         | Inr fs \<Rightarrow> add_directory_entries fs dir_path base_path es)"
| "add_directory_entries fs dir_path base_path (Entry d_name (Regular m t can_open d) es) =
     (let full_path = dir_path @ ''/'' @ d_name;
          rel_path = dropWhile (\<lambda>c. c = CHR ''/'') (drop (length base_path) full_path);
          file = \<lparr> f_name = rel_path, f_size = 0, f_pack_size = 0, f_mtime = filetime t,
                   f_attrib = m, f_crc = 0, f_data = None, f_is_dir = False \<rparr>
      in if can_open
         then add_directory_entries
                (fs @ [file \<lparr> f_size := of_nat (length d), f_data := Some d \<rparr>])
                dir_path base_path es
         else Inl SEVENZIP_ERROR_OPEN_FILE)"
| "add_directory_entries fs dir_path base_path (Entry d_name (Special m t) es) =
     (let full_path = dir_path @ ''/'' @ d_name;
          rel_path = dropWhile (\<lambda>c. c = CHR ''/'') (drop (length base_path) full_path);
          file = \<lparr> f_name = rel_path, f_size = 0, f_pack_size = 0, f_mtime = filetime t,
                   f_attrib = m, f_crc = 0, f_data = None, f_is_dir = False \<rparr>
      in add_directory_entries (fs @ [file]) dir_path base_path es)"

text \<open>
  The loop of \<^verbatim>\<open>sevenzip_create_7z\<close> over the input paths, each given with what the host
  holds there. The name of a file is what follows the last \<^verbatim>\<open>/\<close> of its path, or the last
  backslash when there is no \<^verbatim>\<open>/\<close>.
\<close>

definition input_file_name :: "string \<Rightarrow> string" where
  "input_file_name path =
     (if CHR ''/'' \<in> set path then after_last CHR ''/'' path
      else if CHR 0x5C \<in> set path then after_last (CHR 0x5C) path
      else path)"

fun add_input_paths ::
  "SevenZFile list \<Rightarrow> (string \<times> fs_node) list \<Rightarrow> SevenZipErrorCode + SevenZFile list" where
  "add_input_paths fs [] = Inr fs"
| "add_input_paths fs ((path, Missing) # rest) = Inl SEVENZIP_ERROR_OPEN_FILE"
| "add_input_paths fs ((path, Folder m t can_open es) # rest) =
     (case add_directory_recursive fs path path (Folder m t can_open es) of
        Inl err \<Rightarrow> Inl err
      | Inr fs \<Rightarrow> add_input_paths fs rest)"
| "add_input_paths fs ((path, Regular m t can_open d) # rest) =
     (let file = \<lparr> f_name = input_file_name path, f_size = 0, f_pack_size = 0,
                   f_mtime = filetime t, f_attrib = m, f_crc = 0, f_data = None,
                   f_is_dir = False \<rparr>
      in if can_open
         then add_input_paths
                (fs @ [file \<lparr> f_size := of_nat (length d), f_pack_size := of_nat (length d),
                              f_data := Some d \<rparr>])
                rest
         else Inl SEVENZIP_ERROR_OPEN_FILE)"
| "add_input_paths fs ((path, Special m t) # rest) =
     (let file = \<lparr> f_name = input_file_name path, f_size = 0, f_pack_size = 0,
                   f_mtime = filetime t, f_attrib = m, f_crc = 0, f_data = None,
                   f_is_dir = False \<rparr>
      in add_input_paths (fs @ [file]) rest)"

text \<open>
  \<^verbatim>\<open>sevenzip_create_7z\<close>: the code it returns and the files it has written. \<open>Lzma2Enc\<close> is the
  SDK's encoder with the properties that the function sets from the level and the options;
  \<open>prop_byte\<close> is the value that the builder's \<^verbatim>\<open>lzma2_prop_byte\<close> has before
  \<^verbatim>\<open>compress_all_files\<close> assigns it (the source leaves it uninitialised). The progress callback
  does not touch the archive and is left out.
\<close>

definition sevenzip_create_7z ::
  "(byte list \<Rightarrow> 32 word) \<Rightarrow> lzma2_encoder \<Rightarrow> byte \<Rightarrow> string \<Rightarrow> (string \<times> fs_node) list
     \<Rightarrow> SevenZipCompressionLevel \<Rightarrow> SevenZipErrorCode \<times> written_files" where
  "sevenzip_create_7z CrcCalc Lzma2Enc prop_byte archive_path input_paths level =
     (case add_input_paths [] input_paths of
        Inl err \<Rightarrow> (err, [])
      | Inr fs \<Rightarrow>
          (let builder = \<lparr> files = fs, lzma2_prop_byte = prop_byte,
                           use_copy_codec = (level = SEVENZIP_LEVEL_STORE) \<rparr>;
               (result, bytes) = write_7z_archive CrcCalc Lzma2Enc builder
           in (result, [(archive_path, bytes)])))"

subsection \<open>The multi-volume writer (\<^verbatim>\<open>src/archive_create_multivolume.c\<close>)\<close>

text \<open>
  \<^verbatim>\<open>MV_FileEntry\<close>. The source keeps the path of a file and opens it again when it packs
  it; \<open>e_source\<close> is what the host holds at \<open>e_full_path\<close>.
\<close>

record MV_FileEntry =
  e_name :: string
  e_full_path :: string
  e_size :: "64 word"
  e_mtime :: "64 word"
  e_attrib :: "32 word"
  e_crc :: "32 word"
  e_lzma2_prop :: byte
  e_is_dir :: bool
  e_source :: fs_node

text \<open>
  The macro \<^verbatim>\<open>ADD_FILE_ENTRY\<close>, for the regular file that \<^verbatim>\<open>stat\<close> finds at the path, with
  its mode, time and bytes: \<^verbatim>\<open>0x20\<close> is
  \<^verbatim>\<open>FILE_ATTRIBUTE_ARCHIVE\<close>, \<^verbatim>\<open>0x01\<close> is \<^verbatim>\<open>FILE_ATTRIBUTE_READONLY\<close>, and \<^verbatim>\<open>S_IWUSR\<close> is
  \<^verbatim>\<open>0200\<close> (octal).
\<close>

definition S_IWUSR :: "32 word" where
  "S_IWUSR = 0x80"

definition ADD_FILE_ENTRY ::
  "string \<Rightarrow> string \<Rightarrow> 32 word \<Rightarrow> 64 word \<Rightarrow> bool \<Rightarrow> byte list \<Rightarrow> MV_FileEntry" where
  "ADD_FILE_ENTRY full_path_str relative_name_str m t can_open d =
     \<lparr> e_name = relative_name_str, e_full_path = full_path_str, e_size = of_nat (length d),
       e_mtime = filetime t,
       e_attrib = (if m AND S_IWUSR = 0 then 0x20 OR 0x01 else 0x20),
       e_crc = 0, e_lzma2_prop = 0, e_is_dir = False, e_source = Regular m t can_open d \<rparr>"

text \<open>
  The \<^verbatim>\<open>readdir\<close> loop over one directory of the stack: the directories that it pushes, in
  the order of the pushes, and the entries that it adds.
\<close>

fun scan_directory ::
  "string \<Rightarrow> string \<Rightarrow> nat \<Rightarrow> fs_entries \<Rightarrow> (string \<times> fs_node) list \<times> MV_FileEntry list" where
  "scan_directory current_dir base_dir_name base_path_len NoEntries = ([], [])"
| "scan_directory current_dir base_dir_name base_path_len (Entry d_name node es) =
     (let full_path = current_dir @ ''/'' @ d_name;
          (pushed, added) = scan_directory current_dir base_dir_name base_path_len es
      in case node of
           Missing \<Rightarrow> (pushed, added)
         | Folder m t can_open sub \<Rightarrow> ((full_path, node) # pushed, added)
         | Regular m t can_open d \<Rightarrow>
             (pushed,
              ADD_FILE_ENTRY full_path (base_dir_name @ drop base_path_len full_path)
                  m t can_open d
                # added)
         | Special m t \<Rightarrow> (pushed, added))"

text \<open>The size of what a stack of directories holds, which every round of the loop lowers.\<close>

fun stack_size :: "(string \<times> fs_node) list \<Rightarrow> nat" where
  "stack_size [] = 0"
| "stack_size ((p, node) # stack) = 1 + size node + stack_size stack"

text \<open>
  \<^verbatim>\<open>while (stack_size > 0)\<close>: the directory pushed last is taken from the stack (the head of
  the list) and scanned.
\<close>

function scan_stack ::
  "string \<Rightarrow> nat \<Rightarrow> (string \<times> fs_node) list \<Rightarrow> MV_FileEntry list \<Rightarrow> MV_FileEntry list" where
  "scan_stack base_dir_name base_path_len [] fs = fs"
| "scan_stack base_dir_name base_path_len ((current_dir, Folder m t can_open es) # stack) fs =
     (if can_open
      then (let (pushed, added) = scan_directory current_dir base_dir_name base_path_len es
            in scan_stack base_dir_name base_path_len (rev pushed @ stack) (fs @ added))
      else scan_stack base_dir_name base_path_len stack fs)"
| "scan_stack base_dir_name base_path_len ((current_dir, Missing) # stack) fs =
     scan_stack base_dir_name base_path_len stack fs"
| "scan_stack base_dir_name base_path_len ((current_dir, Regular m t can_open d) # stack) fs =
     scan_stack base_dir_name base_path_len stack fs"
| "scan_stack base_dir_name base_path_len ((current_dir, Special m t) # stack) fs =
     scan_stack base_dir_name base_path_len stack fs"
  by pat_completeness auto
termination
proof (relation "measure (\<lambda>(b, l, stack, fs). stack_size stack)")
  show "wf (measure (\<lambda>(b, l, stack, fs). stack_size stack))" by simp
next
  fix base_dir_name :: string and base_path_len :: nat and current_dir :: string
    and m :: "32 word" and t :: "64 word" and can_open :: bool and es :: fs_entries
    and stack :: "(string \<times> fs_node) list" and fs :: "MV_FileEntry list"
    and x :: "(string \<times> fs_node) list \<times> MV_FileEntry list"
    and pushed :: "(string \<times> fs_node) list" and added :: "MV_FileEntry list"
  assume x: "x = scan_directory current_dir base_dir_name base_path_len es"
    and p: "(pushed, added) = x"
  have app: "stack_size (a @ b) = stack_size a + stack_size b" for a b
    by (induction a) auto
  have rv: "stack_size (rev a) = stack_size a" for a
    by (induction a) (auto simp: app)
  have "stack_size (fst (scan_directory current_dir base_dir_name base_path_len es')) \<le> size es'"
    for es'
    by (induction current_dir base_dir_name base_path_len es' rule: scan_directory.induct)
      (auto simp: case_prod_unfold Let_def split: fs_node.splits)
  from this [of es] x p have "stack_size pushed \<le> size es"
    by (metis fst_conv)
  then show "((base_dir_name, base_path_len, rev pushed @ stack, fs @ added),
              (base_dir_name, base_path_len, (current_dir, Folder m t can_open es) # stack, fs))
             \<in> measure (\<lambda>(b, l, stack, fs). stack_size stack)"
    by (simp add: app rv)
qed simp_all

declare scan_stack.simps [simp del]

text \<open>
  The loop over the input paths: a path whose \<^verbatim>\<open>stat\<close> fails is passed over, a regular file
  is added under the name that follows the last \<^verbatim>\<open>/\<close> of its path, and the regular files
  below a directory are added under the name of the directory followed by their path below
  it.
\<close>

definition path_base_name :: "string \<Rightarrow> string" where
  "path_base_name path = (if CHR ''/'' \<in> set path then after_last CHR ''/'' path else path)"

fun gather_entries :: "(string \<times> fs_node) list \<Rightarrow> MV_FileEntry list \<Rightarrow> MV_FileEntry list" where
  "gather_entries [] fs = fs"
| "gather_entries ((path, Missing) # rest) fs = gather_entries rest fs"
| "gather_entries ((path, Regular m t can_open d) # rest) fs =
     gather_entries rest (fs @ [ADD_FILE_ENTRY path (path_base_name path) m t can_open d])"
| "gather_entries ((path, Folder m t can_open es) # rest) fs =
     gather_entries rest
       (scan_stack (path_base_name path) (length path) [(path, Folder m t can_open es)] fs)"
| "gather_entries ((path, Special m t) # rest) fs = gather_entries rest fs"

text \<open>
  The host as the writer of the volumes meets it: whether \<^verbatim>\<open>fopen(path, "wb")\<close> creates the
  file at a path, and whether an \<^verbatim>\<open>fwrite\<close> of \<open>n\<close> bytes at a position of the file at a path
  writes them all.
\<close>

record volume_host =
  can_create :: "string \<Rightarrow> bool"
  can_write :: "string \<Rightarrow> nat \<Rightarrow> nat \<Rightarrow> bool"

text \<open>
  \<^verbatim>\<open>MultiVolumeContext\<close>: the volumes opened so far, each with the name it was created under,
  the bytes in the current volume and the volume size. The fields of the progress report
  are left out: the callback does not touch the volumes.
\<close>

record MultiVolumeContext =
  mv_volumes :: "(string \<times> cfile) list"
  current_volume_size :: nat
  max_volume_size :: nat
  mv_base_path :: string
  total_packed_size :: "64 word"

text \<open>The decimal digits of a number, as \<^verbatim>\<open>%d\<close> prints them.\<close>

fun decimal :: "nat \<Rightarrow> string" where
  "decimal n = (if n < 10 then [decimal_digit n] else decimal (n div 10) @ [decimal_digit (n mod 10)])"

text \<open>\<^verbatim>\<open>snprintf(buffer, size, "%s.%03d", base, index + 1)\<close>\<close>

definition get_volume_filename :: "string \<Rightarrow> nat \<Rightarrow> string" where
  "get_volume_filename base index =
     (if index + 1 < 1000 then volume_path base (index + 1)
      else base @ ''.'' @ decimal (index + 1))"

text \<open>\<^verbatim>\<open>open_new_volume\<close>: \<open>None\<close> is its result \<^verbatim>\<open>NULL\<close>.\<close>

definition open_new_volume :: "volume_host \<Rightarrow> MultiVolumeContext \<Rightarrow> MultiVolumeContext option" where
  "open_new_volume h ctx =
     (let vol_path = get_volume_filename (mv_base_path ctx) (length (mv_volumes ctx))
      in if \<not> can_create h vol_path then None
         else Some (ctx \<lparr> mv_volumes := mv_volumes ctx @ [(vol_path, fopen_wb)],
                          current_volume_size := 0 \<rparr>))"

text \<open>
  An \<^verbatim>\<open>fwrite\<close> to the volume opened last whose result the source compares with the number
  of bytes: whether it falls short, and the context when it does not.
\<close>

definition write_fails :: "volume_host \<Rightarrow> MultiVolumeContext \<Rightarrow> nat \<Rightarrow> bool" where
  "write_fails h ctx n \<longleftrightarrow>
     n > 0 \<and> \<not> can_write h (fst (last (mv_volumes ctx))) (pos (snd (last (mv_volumes ctx)))) n"

definition write_current :: "byte list \<Rightarrow> MultiVolumeContext \<Rightarrow> MultiVolumeContext" where
  "write_current bytes ctx =
     ctx \<lparr> mv_volumes := butlast (mv_volumes ctx)
              @ [(fst (last (mv_volumes ctx)), fwrite bytes (snd (last (mv_volumes ctx))))] \<rparr>"

text \<open>
  \<^verbatim>\<open>write_across_volumes\<close>, with \<open>data\<close> the bytes still to write: its result (\<open>True\<close> for 1)
  and the context. With a volume size of 0 and a host that creates every volume the loop
  opens volumes without end and writes nothing: the value is then \<open>None\<close>.
\<close>

partial_function (option) write_across_volumes ::
  "volume_host \<Rightarrow> MultiVolumeContext \<Rightarrow> byte list \<Rightarrow> (bool \<times> MultiVolumeContext) option" where
  "write_across_volumes h ctx data =
     (if length data > 0
      then (case (if mv_volumes ctx = [] \<or> current_volume_size ctx \<ge> max_volume_size ctx
                  then open_new_volume h ctx else Some ctx) of
              None \<Rightarrow> Some (False, ctx)
            | Some ctx \<Rightarrow>
                (let space_in_volume = max_volume_size ctx - current_volume_size ctx;
                     to_write = (if length data < space_in_volume then length data
                                 else space_in_volume)
                 in if write_fails h ctx to_write then Some (False, ctx)
                    else
                      (let ctx = write_current (take to_write data) ctx;
                           ctx = ctx \<lparr> current_volume_size := current_volume_size ctx + to_write \<rparr>
                       in write_across_volumes h ctx (drop to_write data))))
      else Some (True, ctx))"

declare write_across_volumes.simps [code]

text \<open>
  The reading loop of \<^verbatim>\<open>store_file_uncompressed\<close>: \<open>remaining\<close> is what is left of the file,
  read and written in pieces of \<open>buf_size\<close> bytes. The result is \<open>False\<close> when a write
  fails.
\<close>

function store_pieces ::
  "volume_host \<Rightarrow> MultiVolumeContext \<Rightarrow> byte list \<Rightarrow> nat \<Rightarrow> (bool \<times> MultiVolumeContext) option" where
  "store_pieces h ctx remaining buf_size =
     (if length remaining > 0
      then (let to_read = (if length remaining < buf_size then length remaining else buf_size);
                got = take to_read remaining
            in if length got = 0 then Some (True, ctx)
               else (case write_across_volumes h ctx got of
                       None \<Rightarrow> None
                     | Some (written, ctx) \<Rightarrow>
                         if \<not> written then Some (False, ctx)
                         else store_pieces h ctx (drop (length got) remaining) buf_size))
      else Some (True, ctx))"
  by pat_completeness auto
termination
  by (relation "measure (\<lambda>(h, ctx, remaining, buf_size). length remaining)") auto

declare store_pieces.simps [simp del]

text \<open>
  \<^verbatim>\<open>STREAM_BUFFER_SIZE\<close>, and \<^verbatim>\<open>store_file_uncompressed\<close> for a file that is read from its
  path (\<^verbatim>\<open>mapped_data\<close> is \<^verbatim>\<open>NULL\<close>) or whose bytes are mapped. The result is \<open>None\<close> when
  the function does not return, and otherwise whether it returns \<^verbatim>\<open>SZ_OK\<close>, the context,
  \<^verbatim>\<open>*out_crc\<close> and \<^verbatim>\<open>*out_packed_size\<close>. The CRC that \<^verbatim>\<open>CrcUpdate\<close> accumulates over the pieces
  is \<open>CrcCalc\<close> of the bytes read.
\<close>

definition STREAM_BUFFER_SIZE :: nat where
  "STREAM_BUFFER_SIZE = 32 * 1024 * 1024"

fun store_file_uncompressed ::
  "(byte list \<Rightarrow> 32 word) \<Rightarrow> volume_host \<Rightarrow> fs_node \<Rightarrow> bool \<Rightarrow> 64 word \<Rightarrow> MultiVolumeContext
     \<Rightarrow> (bool \<times> MultiVolumeContext \<times> 32 word \<times> 64 word) option" where
  "store_file_uncompressed CrcCalc h (Regular m t can_open d) mapped file_size ctx =
     (if mapped
      then (case write_across_volumes h ctx (take (unat file_size) d) of
              None \<Rightarrow> None
            | Some (written, ctx) \<Rightarrow>
                if \<not> written then Some (False, ctx, 0, 0)
                else Some (True, ctx, CrcCalc (take (unat file_size) d), file_size))
      else if \<not> can_open then Some (False, ctx, 0, 0)
      else (let buf_size = (if file_size > 4 * 1024 * 1024 * 1024 then 64 * 1024
                            else STREAM_BUFFER_SIZE)
            in case store_pieces h ctx (take (unat file_size) d) buf_size of
                 None \<Rightarrow> None
               | Some (written, ctx) \<Rightarrow>
                   if \<not> written then Some (False, ctx, 0, 0)
                   else Some (True, ctx, CrcCalc (take (unat file_size) d), file_size)))"
| "store_file_uncompressed CrcCalc h node mapped file_size ctx = Some (False, ctx, 0, 0)"

text \<open>
  \<^verbatim>\<open>compress_file_streaming\<close>: whether it returns \<^verbatim>\<open>SZ_OK\<close>, the context, \<^verbatim>\<open>*out_crc\<close>,
  \<^verbatim>\<open>*out_packed_size\<close> and \<^verbatim>\<open>*out_prop\<close>. \<open>Lzma2Enc\<close> is the SDK's encoder with the properties set
  by the caller; it reads the whole file and hands its output to \<^verbatim>\<open>VolumeOutStream_Write\<close>,
  whose buffer passes the bytes on to \<^verbatim>\<open>write_across_volumes\<close> in their order, in pieces,
  and the encoder fails when a write fails. A file of at least one byte is mapped; an empty
  file cannot be mapped and is read through \<^verbatim>\<open>fopen\<close>.
\<close>

fun compress_file_streaming ::
  "(byte list \<Rightarrow> 32 word) \<Rightarrow> lzma2_encoder \<Rightarrow> volume_host \<Rightarrow> fs_node \<Rightarrow> MultiVolumeContext
     \<Rightarrow> (bool \<times> MultiVolumeContext \<times> 32 word \<times> 64 word \<times> byte) option" where
  "compress_file_streaming CrcCalc Lzma2Enc h (Regular m t can_open d) ctx =
     (let file_size = (of_nat (length d) :: 64 word) in
      if \<not> can_open then Some (False, ctx, 0, 0, 0)
      else if length d > 0 \<and> file_size > 1024 * 1024 \<and> \<not> mv_is_data_compressible d
      then (case store_file_uncompressed CrcCalc h (Regular m t can_open d) True file_size ctx of
              None \<Rightarrow> None
            | Some (ok, ctx, crc, packed_size) \<Rightarrow> Some (ok, ctx, crc, packed_size, 0))
      else (case Lzma2Enc d of
              None \<Rightarrow> Some (False, ctx, 0, 0, 0)
            | Some (prop, out_bytes) \<Rightarrow>
                (case write_across_volumes h ctx out_bytes of
                   None \<Rightarrow> None
                 | Some (written, ctx) \<Rightarrow>
                     if \<not> written then Some (False, ctx, 0, 0, prop)
                     else Some (True, ctx, CrcCalc d, of_nat (length out_bytes), prop))))"
| "compress_file_streaming CrcCalc Lzma2Enc h node ctx = Some (False, ctx, 0, 0, 0)"

text \<open>
  The loop \<^verbatim>\<open>Process each file\<close> of \<^verbatim>\<open>sevenzip_create_multivolume_7z_complete\<close> over the
  entries still to visit: whether every file was packed, the entries with their CRC and
  property byte, and the context.
\<close>

fun process_files ::
  "(byte list \<Rightarrow> 32 word) \<Rightarrow> lzma2_encoder \<Rightarrow> volume_host \<Rightarrow> bool \<Rightarrow> MV_FileEntry list
     \<Rightarrow> MultiVolumeContext \<Rightarrow> (bool \<times> MV_FileEntry list \<times> MultiVolumeContext) option" where
  "process_files CrcCalc Lzma2Enc h use_store_mode [] ctx = Some (True, [], ctx)"
| "process_files CrcCalc Lzma2Enc h use_store_mode (file # rest) ctx =
     (if e_is_dir file
      then (case process_files CrcCalc Lzma2Enc h use_store_mode rest ctx of
              None \<Rightarrow> None
            | Some (ok, rest, ctx) \<Rightarrow>
                Some (ok, file \<lparr> e_crc := 0, e_lzma2_prop := 0 \<rparr> # rest, ctx))
      else
        (case (if use_store_mode
               then (case store_file_uncompressed CrcCalc h (e_source file) False (e_size file)
                            ctx of
                       None \<Rightarrow> None
                     | Some (ok, ctx, crc, packed_size) \<Rightarrow> Some (ok, ctx, crc, packed_size, 0))
               else compress_file_streaming CrcCalc Lzma2Enc h (e_source file) ctx) of
           None \<Rightarrow> None
         | Some (ok, ctx, crc, packed_size, prop) \<Rightarrow>
             if \<not> ok then Some (False, file \<lparr> e_lzma2_prop := prop \<rparr> # rest, ctx)
             else
               (case process_files CrcCalc Lzma2Enc h use_store_mode rest
                       (ctx \<lparr> total_packed_size := total_packed_size ctx + packed_size \<rparr>) of
                  None \<Rightarrow> None
                | Some (ok, rest, ctx) \<Rightarrow>
                    Some (ok, file \<lparr> e_crc := crc, e_lzma2_prop := prop \<rparr> # rest, ctx))))"

text \<open>The parts of the header that \<^verbatim>\<open>build_7z_header\<close> writes, in its order.\<close>

definition mv_coder :: "MV_FileEntry list \<Rightarrow> byte list" where
  "mv_coder fs =
     (let prop_byte = (case find (\<lambda>f. \<not> e_is_dir f) fs of
                         None \<Rightarrow> 0x01
                       | Some f \<Rightarrow> e_lzma2_prop f)
      in if prop_byte = 0 then [0x01, 0x00] else [0x21, 0x21, 1, prop_byte])"

fun mv_total_unpack :: "MV_FileEntry list \<Rightarrow> 64 word" where
  "mv_total_unpack [] = 0"
| "mv_total_unpack (f # fs) = (if \<not> e_is_dir f then e_size f else 0) + mv_total_unpack fs"

fun mv_num_files :: "MV_FileEntry list \<Rightarrow> nat" where
  "mv_num_files [] = 0"
| "mv_num_files (f # fs) = (if \<not> e_is_dir f then 1 else 0) + mv_num_files fs"

fun mv_write_sizes :: "MV_FileEntry list \<Rightarrow> nat \<Rightarrow> nat \<Rightarrow> byte list" where
  "mv_write_sizes [] written num_files = []"
| "mv_write_sizes (f # fs) written num_files =
     (if written < num_files - 1
      then (if \<not> e_is_dir f
            then WriteNumber (e_size f) @ mv_write_sizes fs (written + 1) num_files
            else mv_write_sizes fs written num_files)
      else [])"

fun mv_write_crcs :: "MV_FileEntry list \<Rightarrow> byte list" where
  "mv_write_crcs [] = []"
| "mv_write_crcs (f # fs) = (if \<not> e_is_dir f then le32 (e_crc f) else []) @ mv_write_crcs fs"

definition mv_substreams_info :: "MV_FileEntry list \<Rightarrow> byte list" where
  "mv_substreams_info fs =
     (let num_files = mv_num_files fs in
      [0x08, 0x0D] @ WriteNumber (of_nat num_files)
      @ (if num_files > 1 then [0x09] @ mv_write_sizes fs 0 num_files else [])
      @ [0x0A, 1] @ mv_write_crcs fs @ [0x00])"

definition mv_files_info :: "MV_FileEntry list \<Rightarrow> byte list" where
  "mv_files_info fs =
     (let names_size = sum_list (map (\<lambda>f. (length (e_name f) + 1) * 2) fs) in
      [0x05] @ WriteNumber (of_nat (length fs))
      @ [0x11] @ WriteNumber (of_nat (names_size + 1)) @ [0]
      @ concat (map (\<lambda>f. utf16le_name (e_name f)) fs)
      @ [0x14] @ WriteNumber (of_nat (length fs * 8 + 2)) @ [1, 0]
      @ concat (map (\<lambda>f. le64 (e_mtime f)) fs)
      @ [0x15] @ WriteNumber (of_nat (length fs * 4 + 2)) @ [1, 0]
      @ concat (map (\<lambda>f. le32 (e_attrib f)) fs)
      @ [0x00])"

text \<open>The bytes that \<^verbatim>\<open>build_7z_header\<close> writes from the start of its buffer on.\<close>

definition header_bytes :: "MV_FileEntry list \<Rightarrow> 64 word \<Rightarrow> byte list" where
  "header_bytes fs packed_size =
     [0x01, 0x04]
     @ [0x06] @ WriteNumber 0 @ WriteNumber 1 @ [0x09] @ WriteNumber packed_size @ [0x00]
     @ [0x07, 0x0B] @ WriteNumber 1 @ WriteNumber 0 @ WriteNumber 1 @ mv_coder fs
     @ [0x0C] @ WriteNumber (mv_total_unpack fs) @ [0x00]
     @ mv_substreams_info fs @ [0x00]
     @ mv_files_info fs @ [0x00]"

text \<open>
  \<^verbatim>\<open>build_7z_header\<close>: the buffer is \<^verbatim>\<open>malloc(256 * 1024)\<close> and the function never compares
  \<^verbatim>\<open>p\<close> with its end, so a header of more bytes is written beyond the buffer, which has no
  defined result (\<open>None\<close>).
\<close>

definition header_capacity :: nat where
  "header_capacity = 256 * 1024"

definition build_7z_header :: "MV_FileEntry list \<Rightarrow> 64 word \<Rightarrow> byte list option" where
  "build_7z_header fs packed_size =
     (if length (header_bytes fs packed_size) \<le> header_capacity
      then Some (header_bytes fs packed_size) else None)"

text \<open>The bytes of the volumes, in the order of the volumes.\<close>

definition volume_files :: "MultiVolumeContext \<Rightarrow> written_files" where
  "volume_files ctx = map (\<lambda>v. (fst v, content (snd v))) (mv_volumes ctx)"

text \<open>
  The three checked writes of the Signature Header's place into the first volume: the
  signature, the version and 24 zero bytes, each counted in \<^verbatim>\<open>current_volume_size\<close>;
  \<open>None\<close> is the \<^verbatim>\<open>goto error\<close>.
\<close>

definition write_counted ::
  "volume_host \<Rightarrow> byte list \<Rightarrow> MultiVolumeContext \<Rightarrow> MultiVolumeContext option" where
  "write_counted h bytes ctx =
     (if write_fails h ctx (length bytes) then None
      else Some (write_current bytes ctx
                   \<lparr> current_volume_size := current_volume_size ctx + length bytes \<rparr>))"

text \<open>
  \<^verbatim>\<open>sevenzip_create_multivolume_7z_complete\<close>: the code it returns and the volumes as it
  leaves them. The result is \<open>None\<close> when the run has no defined result: it does not
  return, or it writes beyond the buffer of the header. \<^verbatim>\<open>base_path\<close> has 1024 bytes, of
  which \<^verbatim>\<open>strncpy\<close> fills at most 1023 from the archive path. What a failed run leaves in
  its volumes is taken from the context as it is; the writes at the end that patch the
  first volume are not checked by the source and are taken to succeed. \<open>Lzma2Enc\<close> is the
  SDK's encoder with the properties that the function sets from the level and the options.
\<close>

definition sevenzip_create_multivolume_7z_complete ::
  "(byte list \<Rightarrow> 32 word) \<Rightarrow> lzma2_encoder \<Rightarrow> volume_host \<Rightarrow> string
     \<Rightarrow> (string \<times> fs_node) list \<Rightarrow> SevenZipCompressionLevel \<Rightarrow> 64 word
     \<Rightarrow> (SevenZipErrorCode \<times> written_files) option" where
  "sevenzip_create_multivolume_7z_complete CrcCalc Lzma2Enc h archive_path input_paths level
       split_size =
     (if split_size = 0 then Some (SEVENZIP_ERROR_INVALID_PARAM, [])
      else
        (let ctx = \<lparr> mv_volumes = [], current_volume_size = 0,
                     max_volume_size = unat split_size,
                     mv_base_path = take 1023 archive_path,
                     total_packed_size = 0 \<rparr>;
             entries = gather_entries input_paths []
         in if length entries = 0 then Some (SEVENZIP_ERROR_INVALID_PARAM, [])
            else
              (case open_new_volume h ctx of
                 None \<Rightarrow> Some (SEVENZIP_ERROR_OPEN_FILE, [])
               | Some ctx \<Rightarrow>
                   (case write_counted h k7zSignature ctx of
                      None \<Rightarrow> Some (SEVENZIP_ERROR_COMPRESS, volume_files ctx)
                    | Some ctx \<Rightarrow>
                   (case write_counted h [0, 4] ctx of
                      None \<Rightarrow> Some (SEVENZIP_ERROR_COMPRESS, volume_files ctx)
                    | Some ctx \<Rightarrow>
                   (let start_header_pos = ftell (snd (last (mv_volumes ctx))) in
                    case write_counted h (replicate 24 0) ctx of
                      None \<Rightarrow> Some (SEVENZIP_ERROR_COMPRESS, volume_files ctx)
                    | Some ctx \<Rightarrow>
                   (let ctx = ctx \<lparr> total_packed_size := 0 \<rparr>;
                        use_store_mode = (level = SEVENZIP_LEVEL_STORE)
                    in case process_files CrcCalc Lzma2Enc h use_store_mode entries ctx of
                         None \<Rightarrow> None
                       | Some (ok, entries, ctx) \<Rightarrow>
                           if \<not> ok then Some (SEVENZIP_ERROR_COMPRESS, volume_files ctx)
                           else
                             (case build_7z_header entries (total_packed_size ctx) of
                                None \<Rightarrow> None
                              | Some header \<Rightarrow>
                                  (let header_crc = CrcCalc header
                                   in case write_across_volumes h ctx header of
                                        None \<Rightarrow> None
                                      | Some (written, ctx) \<Rightarrow>
                                          if \<not> written
                                          then Some (SEVENZIP_ERROR_COMPRESS, volume_files ctx)
                                          else
                                (let next_header_offset = total_packed_size ctx;
                                     next_header_size = (of_nat (length header) :: 64 word);
                                     start_header_buf = le64 next_header_offset
                                       @ le64 next_header_size @ le32 header_crc;
                                     start_header_crc = CrcCalc start_header_buf;
                                     first_vol = snd (mv_volumes ctx ! 0);
                                     first_vol = fseek_set start_header_pos first_vol;
                                     first_vol = fwrite (le32 start_header_crc) first_vol;
                                     first_vol = fwrite start_header_buf first_vol;
                                     ctx = ctx \<lparr> mv_volumes :=
                                             (mv_volumes ctx)
                                               [0 := (fst (mv_volumes ctx ! 0), first_vol)] \<rparr>
                                 in Some (SEVENZIP_OK, volume_files ctx)))))))))))"

subsection \<open>\<^verbatim>\<open>sevenzip_create_7z_streaming\<close> (\<^verbatim>\<open>src/archive_stream_api.c\<close>)\<close>

record FileList =
  fl_paths :: "string list"
  fl_sizes :: "64 word list"
  fl_total_size :: "64 word"

definition file_list_init :: FileList where
  "file_list_init = \<lparr> fl_paths = [], fl_sizes = [], fl_total_size = 0 \<rparr>"

definition file_list_add :: "FileList \<Rightarrow> string \<Rightarrow> 64 word \<Rightarrow> FileList" where
  "file_list_add list path sz =
     list \<lparr> fl_paths := fl_paths list @ [path], fl_sizes := fl_sizes list @ [sz],
            fl_total_size := fl_total_size list + sz \<rparr>"

text \<open>\<^verbatim>\<open>gather_files\<close> and \<^verbatim>\<open>gather_directory_files\<close>: \<open>None\<close> for the result 0.\<close>

fun gather_files :: "string \<Rightarrow> fs_node \<Rightarrow> FileList \<Rightarrow> FileList option"
and gather_directory_files :: "string \<Rightarrow> fs_entries \<Rightarrow> FileList \<Rightarrow> FileList option"
where
  "gather_files path Missing list = None"
| "gather_files path (Regular m t can_open d) list =
     Some (file_list_add list path (of_nat (length d)))"
| "gather_files path (Folder m t can_open es) list =
     (if can_open then gather_directory_files path es list else None)"
| "gather_files path (Special m t) list = Some list"
| "gather_directory_files dir_path NoEntries list = Some list"
| "gather_directory_files dir_path (Entry d_name node es) list =
     (case gather_files (dir_path @ ''/'' @ d_name) node list of
        None \<Rightarrow> None
      | Some list \<Rightarrow> gather_directory_files dir_path es list)"

fun gather_input_paths :: "(string \<times> fs_node) list \<Rightarrow> FileList \<Rightarrow> FileList option" where
  "gather_input_paths [] list = Some list"
| "gather_input_paths ((path, node) # rest) list =
     (case gather_files path node list of
        None \<Rightarrow> None
      | Some list \<Rightarrow> gather_input_paths rest list)"

text \<open>
  \<^verbatim>\<open>sevenzip_create_7z_streaming\<close> with the options given; \<open>Lzma2Enc\<close> and \<open>Lzma2EncMV\<close> are
  the SDK's encoder with the properties that \<^verbatim>\<open>sevenzip_create_7z\<close> and the multi-volume
  writer set, and \<open>h\<close> is the host that the multi-volume writer meets.
\<close>

definition sevenzip_create_7z_streaming ::
  "(byte list \<Rightarrow> 32 word) \<Rightarrow> lzma2_encoder \<Rightarrow> lzma2_encoder \<Rightarrow> volume_host \<Rightarrow> byte \<Rightarrow> string
     \<Rightarrow> (string \<times> fs_node) list \<Rightarrow> SevenZipCompressionLevel \<Rightarrow> 64 word
     \<Rightarrow> (SevenZipErrorCode \<times> written_files) option" where
  "sevenzip_create_7z_streaming CrcCalc Lzma2Enc Lzma2EncMV h prop_byte archive_path
       input_paths level split_size =
     (if split_size = 0
      then Some (sevenzip_create_7z CrcCalc Lzma2Enc prop_byte archive_path input_paths level)
      else
        (case gather_input_paths input_paths file_list_init of
           None \<Rightarrow> Some (SEVENZIP_ERROR_INVALID_PARAM, [])
         | Some list \<Rightarrow>
             if length (fl_paths list) = 0 then Some (SEVENZIP_ERROR_INVALID_PARAM, [])
             else if fl_total_size list \<le> split_size
             then Some (sevenzip_create_7z CrcCalc Lzma2Enc prop_byte archive_path input_paths
                          level)
             else sevenzip_create_multivolume_7z_complete CrcCalc Lzma2EncMV h archive_path
                    input_paths level split_size))"

subsection \<open>What the volumes hold\<close>

text \<open>A host that creates every volume and completes every write.\<close>

definition obliging :: "volume_host \<Rightarrow> bool" where
  "obliging h \<longleftrightarrow> (\<forall>path. can_create h path) \<and> (\<forall>path position n. can_write h path position n)"

definition obliging_host :: volume_host where
  "obliging_host = \<lparr> can_create = (\<lambda>path. True), can_write = (\<lambda>path position n. True) \<rparr>"

text \<open>The bytes written to the volumes so far, in the order of the volumes.\<close>

definition written_bytes :: "MultiVolumeContext \<Rightarrow> byte list" where
  "written_bytes ctx = concat (map (\<lambda>v. content (snd v)) (mv_volumes ctx))"

text \<open>
  The state of the volumes between two writes: every volume is positioned at its end,
  every volume but the last is full, the last one holds \<open>current_volume_size\<close> bytes, at
  least one and at most \<open>max_volume_size\<close>, and volume \<open>i\<close> (from 0) has the name with the
  number \<open>i + 1\<close>.
\<close>

definition volumes_ok :: "MultiVolumeContext \<Rightarrow> bool" where
  "volumes_ok ctx \<longleftrightarrow>
     mv_volumes ctx \<noteq> []
     \<and> (\<forall>v \<in> set (mv_volumes ctx). pos (snd v) = length (content (snd v)))
     \<and> (\<forall>v \<in> set (butlast (mv_volumes ctx)). length (content (snd v)) = max_volume_size ctx)
     \<and> length (content (snd (last (mv_volumes ctx)))) = current_volume_size ctx
     \<and> 0 < current_volume_size ctx
     \<and> current_volume_size ctx \<le> max_volume_size ctx
     \<and> map fst (mv_volumes ctx)
         = map (get_volume_filename (mv_base_path ctx)) [0..<length (mv_volumes ctx)]"

text \<open>
  A set of volumes of an archive cut at \<open>n\<close> bytes: named \<open>base.001\<close>, \<open>base.002\<close>, ... in
  their order, each of \<open>n\<close> bytes but the last, which holds between 1 and \<open>n\<close> bytes.
\<close>

definition cut_into_volumes :: "string \<Rightarrow> nat \<Rightarrow> written_files \<Rightarrow> bool" where
  "cut_into_volumes base n vols \<longleftrightarrow>
     vols \<noteq> []
     \<and> map fst vols = map (get_volume_filename base) [0..<length vols]
     \<and> (\<forall>v \<in> set (butlast vols). length (snd v) = n)
     \<and> 0 < length (snd (last vols)) \<and> length (snd (last vols)) \<le> n"

text \<open>
  What the scan guarantees for an entry: its size is the number of bytes of the regular
  file at its path.
\<close>

definition entry_ok :: "MV_FileEntry \<Rightarrow> bool" where
  "entry_ok file =
     (case e_source file of
        Regular m t can_open d \<Rightarrow> e_size file = of_nat (length d)
      | _ \<Rightarrow> True)"

text \<open>
  The packed stream in the words of the format. The bytes of a file that its 64-bit size
  covers (all of them for a file shorter than \<open>2^64\<close> bytes); what one entry contributes:
  these bytes as they are, with the property byte 0, under the store mode or when the file
  is larger than 1 MiB and judged incompressible, and otherwise the output of the encoder
  with its property byte, the CRC being that of the file in both cases; nothing when the
  file cannot be opened or the encoder fails. The packed stream is what the entries
  contribute, in their order.
\<close>

definition stored_bytes :: "byte list \<Rightarrow> byte list" where
  "stored_bytes d = take (unat (of_nat (length d) :: 64 word)) d"

definition packed_entry ::
  "(byte list \<Rightarrow> 32 word) \<Rightarrow> lzma2_encoder \<Rightarrow> bool \<Rightarrow> MV_FileEntry
     \<Rightarrow> (byte list \<times> MV_FileEntry) option" where
  "packed_entry CrcCalc Lzma2Enc use_store_mode entry =
     (if e_is_dir entry then Some ([], entry \<lparr> e_crc := 0, e_lzma2_prop := 0 \<rparr>)
      else
        (case e_source entry of
           Regular m t can_open d \<Rightarrow>
             if \<not> can_open then None
             else if use_store_mode
                     \<or> (1024 * 1024 < (of_nat (length d) :: 64 word)
                         \<and> \<not> mv_is_data_compressible d)
             then Some (stored_bytes d,
                        entry \<lparr> e_crc := CrcCalc (stored_bytes d), e_lzma2_prop := 0 \<rparr>)
             else (case Lzma2Enc d of
                     None \<Rightarrow> None
                   | Some (prop_byte, out_bytes) \<Rightarrow>
                       Some (out_bytes,
                             entry \<lparr> e_crc := CrcCalc d, e_lzma2_prop := prop_byte \<rparr>))
         | _ \<Rightarrow> None))"

fun packed_stream ::
  "(byte list \<Rightarrow> 32 word) \<Rightarrow> lzma2_encoder \<Rightarrow> bool \<Rightarrow> MV_FileEntry list
     \<Rightarrow> (byte list \<times> MV_FileEntry list) option" where
  "packed_stream CrcCalc Lzma2Enc use_store_mode [] = Some ([], [])"
| "packed_stream CrcCalc Lzma2Enc use_store_mode (entry # rest) =
     (case packed_entry CrcCalc Lzma2Enc use_store_mode entry of
        None \<Rightarrow> None
      | Some (bytes, entry') \<Rightarrow>
          (case packed_stream CrcCalc Lzma2Enc use_store_mode rest of
             None \<Rightarrow> None
           | Some (others, rest') \<Rightarrow> Some (bytes @ others, entry' # rest')))"

text \<open>The number of regular files that a scan finds at a path and below it.\<close>

fun regular_files :: "fs_node \<Rightarrow> nat"
and regular_files_in :: "fs_entries \<Rightarrow> nat"
where
  "regular_files Missing = 0"
| "regular_files (Regular m t can_open d) = 1"
| "regular_files (Folder m t can_open es) = (if can_open then regular_files_in es else 0)"
| "regular_files (Special m t) = 0"
| "regular_files_in NoEntries = 0"
| "regular_files_in (Entry d_name node es) = regular_files node + regular_files_in es"

text \<open>The number of regular files that the scan of a directory on the stack finds.\<close>

definition folder_files :: "fs_node \<Rightarrow> nat" where
  "folder_files node = (case node of Folder m t can_open es \<Rightarrow> regular_files node | _ \<Rightarrow> 0)"

text \<open>Inputs used to instantiate the theorems: one regular file of 2000 zero bytes with
  the mode \<^verbatim>\<open>0100644\<close> (octal), a path at which there is nothing, and an empty directory.\<close>

definition payload_2000 :: "byte list" where
  "payload_2000 = replicate 2000 0"

definition one_big_file :: "(string \<times> fs_node) list" where
  "one_big_file = [(''big.bin'', Regular 0x81A4 0 True payload_2000)]"

definition nothing_there :: "(string \<times> fs_node) list" where
  "nothing_there = [(''gone'', Missing)]"

definition one_empty_directory :: "(string \<times> fs_node) list" where
  "one_empty_directory = [(''dir'', Folder 0x41ED 0 True NoEntries)]"

section \<open>Theorems\<close>

subsection \<open>Key derivation\<close>

lemma derive_key_rounds_funpow:
  "(\<And>m. length (sha256 m) = 32) \<Longrightarrow> length hash = 32 \<Longrightarrow>
   derive_key_rounds sha256 i iterations hash = (sha256 ^^ (iterations - i)) hash"
proof (induction sha256 i iterations hash rule: derive_key_rounds.induct)
  case (1 sha256 i iterations hash)
  note len = "1.prems"(1)
  show ?case
  proof (cases "i < iterations")
    case True
    then have step: "iterations - i = Suc (iterations - (i + 1))" by simp
    let ?h = "Sha256_Final sha256 (Sha256_Update Sha256_Init (take SHA256_DIGEST_SIZE hash))"
    have h: "?h = sha256 hash"
      using "1.prems"(2)
      by (simp add: Sha256_Final_def Sha256_Update_def Sha256_Init_def SHA256_DIGEST_SIZE_def)
    have "derive_key_rounds sha256 i iterations hash
            = derive_key_rounds sha256 (i + 1) iterations ?h"
      using True by (subst derive_key_rounds.simps) simp
    also have "\<dots> = (sha256 ^^ (iterations - (i + 1))) ?h"
      using "1.IH" [OF True len] h by (simp add: len)
    also have "\<dots> = (sha256 ^^ (iterations - i)) hash"
      unfolding step h by (simp add: funpow_swap1)
    finally show ?thesis .
  next
    case False
    then show ?thesis by (subst derive_key_rounds.simps) simp
  qed
qed

text \<open>
  C9. For every password and salt, iteration 1 is SHA-256 of password followed by salt,
  each of the iterations 2 to 262144 is SHA-256 of the previous 32-byte digest, and the
  last digest is the AES-256 key, unchanged. SHA-256 is any function \<open>sha256\<close> with
  32-byte digests.
\<close>

theorem derive_key_is_iterated_sha256:
  assumes "\<forall>m. length (sha256 m) = 32"
  shows "sevenzip_init_key sha256 password salt
           = (sha256 ^^ 262143) (sha256 (password @ salt))
         \<and> length (sevenzip_init_key sha256 password salt) = 32"
proof -
  have len: "\<And>m. length (sha256 m) = 32" using assms by simp
  have len_pow: "length ((sha256 ^^ n) (sha256 m)) = 32" for n m
    by (induction n) (simp_all add: len)
  have "derive_key_rounds sha256 1 PBKDF2_ITERATIONS (sha256 (password @ salt))
          = (sha256 ^^ (PBKDF2_ITERATIONS - 1)) (sha256 (password @ salt))"
    by (rule derive_key_rounds_funpow [OF len]) (simp add: len)
  moreover have "PBKDF2_ITERATIONS - 1 = 262143"
    by (simp add: PBKDF2_ITERATIONS_def)
  ultimately show ?thesis
    by (simp add: sevenzip_init_key_def derive_key_from_password_def Sha256_Final_def
        Sha256_Update_def Sha256_Init_def AES_KEY_SIZE_def SHA256_DIGEST_SIZE_def len_pow)
qed

theorem derive_key_is_iterated_sha256_witness:
  "(\<forall>m. length (toy_digest m) = 32)
   \<and> sevenzip_init_key toy_digest [112, 119] [1, 2, 3]
       = (toy_digest ^^ 262143) (toy_digest ([112, 119] @ [1, 2, 3]))
   \<and> length (sevenzip_init_key toy_digest [112, 119] [1, 2, 3]) = 32"
proof -
  have h: "\<forall>m. length (toy_digest m) = 32" by (simp add: toy_digest_def)
  show ?thesis
    using h derive_key_is_iterated_sha256 [OF h, of "[112, 119]" "[1, 2, 3]"] by blast
qed

subsection \<open>The read path and the password\<close>

text \<open>
  C10. The read path never consults the password: for every host, archive path, output
  directory and callback, two runs of \<^verbatim>\<open>sevenzip_extract\<close> that differ only in the
  password (\<^verbatim>\<open>NULL\<close> or any string) perform the same operations, write the same bytes
  and return the same code, and \<^verbatim>\<open>sevenzip_list\<close> returns the same code and list.
\<close>

theorem read_path_ignores_password:
  "sevenzip_extract h archive_path output_dir password1 progress_callback
     = sevenzip_extract h archive_path output_dir password2 progress_callback
   \<and> sevenzip_list h archive_path password1 list_given
     = sevenzip_list h archive_path password2 list_given"
  by (simp add: sevenzip_extract_def sevenzip_list_def)

subsection \<open>The 7z number encoding\<close>

lemma hi: "(v::64 word) < 2 ^ m \<Longrightarrow> m \<le> n \<Longrightarrow> \<not> bit v n"
  by (metis bit_take_bit_iff less_mask_eq not_le take_bit_eq_mask order_less_le_trans)

lemma lt_bit: "(v::64 word) < 2 ^ m \<Longrightarrow> bit v n \<Longrightarrow> n < m"
  using hi not_le by blast


lemma and_FF: "(w::64 word) AND 0xFF = take_bit 8 w"
  by (simp add: take_bit_eq_mask mask_eq_exp_minus_1)

lemma ucast_and_FF [simp]: "(ucast ((w::64 word) AND 0xFF) :: byte) = ucast w"
  unfolding and_FF by (rule bit_word_eqI) (auto simp: bit_simps)

lemma le_value_append:
  "le_value (xs @ ys) = le_value xs OR push_bit (8 * length xs) (le_value ys)"
  by (induction xs) (simp_all add: push_bit_or push_bit_push_bit or.assoc add.commute)

lemma take_bit_step:
  "take_bit m (v::64 word) OR push_bit m (ucast (ucast (drop_bit m v) :: byte)) = take_bit (m + 8) v"
  by (rule bit_word_eqI) (auto simp: bit_simps)

lemma le_value_bytes:
  "le_value (map (\<lambda>i. ucast (drop_bit (8 * i) v)) [0..<k]) = take_bit (8 * k) v"
proof (induction k)
  case 0
  show ?case by simp
next
  case (Suc k)
  show ?case
    using take_bit_step [of "8 * k" v]
    by (simp add: le_value_append Suc.IH add.commute)
qed

lemma first_low:
  assumes "v < 2 ^ (7 * k + 7)" "k \<le> 7"
  shows "(ucast (take_bit (7 - k) (first_byte k v)) :: 64 word) = drop_bit (8 * k) v"
proof (rule bit_word_eqI)
  fix n assume "n < LENGTH(64)"
  show "bit (ucast (take_bit (7 - k) (first_byte k v)) :: 64 word) n = bit (drop_bit (8 * k) v) n"
  proof (cases "n < 7 - k")
    case True
    then show ?thesis
      using \<open>n < LENGTH(64)\<close> by (auto simp add: first_byte_def bit_simps)
  next
    case False
    have "\<not> bit v (8 * k + n)"
    proof
      assume "bit v (8 * k + n)"
      from lt_bit [OF assms(1) this] False show False by simp
    qed
    with False show ?thesis by (simp add: bit_simps add.commute)
  qed
qed

lemma first_bits:
  assumes "k \<le> 7"
  shows "n < 8 \<Longrightarrow> 8 - k \<le> n \<Longrightarrow> bit (first_byte k v) n" "\<not> bit (first_byte k v) (7 - k)"
  using assms by (auto simp: first_byte_def bit_simps)

lemma split_v:
  "push_bit m (drop_bit m v) OR take_bit m v = (v :: 64 word)"
  by (rule bit_word_eqI) (auto simp: bit_simps)


lemma le_bytes_explicit:
  "le_bytes 0 v = []"
  "le_bytes (Suc 0) v = [ucast v]"
  "le_bytes 2 v = [ucast v, ucast (drop_bit 8 v)]"
  "le_bytes 3 v = [ucast v, ucast (drop_bit 8 v), ucast (drop_bit 16 v)]"
  "le_bytes 4 v = [ucast v, ucast (drop_bit 8 v), ucast (drop_bit 16 v), ucast (drop_bit 24 v)]"
  "le_bytes 5 v = [ucast v, ucast (drop_bit 8 v), ucast (drop_bit 16 v), ucast (drop_bit 24 v),
                   ucast (drop_bit 32 v)]"
  "le_bytes 6 v = [ucast v, ucast (drop_bit 8 v), ucast (drop_bit 16 v), ucast (drop_bit 24 v),
                   ucast (drop_bit 32 v), ucast (drop_bit 40 v)]"
  "le_bytes 7 v = [ucast v, ucast (drop_bit 8 v), ucast (drop_bit 16 v), ucast (drop_bit 24 v),
                   ucast (drop_bit 32 v), ucast (drop_bit 40 v), ucast (drop_bit 48 v)]"
  "le_bytes 8 v = [ucast v, ucast (drop_bit 8 v), ucast (drop_bit 16 v), ucast (drop_bit 24 v),
                   ucast (drop_bit 32 v), ucast (drop_bit 40 v), ucast (drop_bit 48 v),
                   ucast (drop_bit 56 v)]"
  by (simp_all add: le_bytes_def upt_rec)

lemma length_le_bytes [simp]: "length (le_bytes k v) = k"
  by (simp add: le_bytes_def)

lemma le_value_le_bytes: "le_value (le_bytes k v) = take_bit (8 * k) v"
  unfolding le_bytes_def by (rule le_value_bytes)

lemma take_bit_self: "(v::64 word) < 2 ^ m \<Longrightarrow> take_bit m v = v"
  by (rule bit_word_eqI) (auto simp: bit_simps dest: lt_bit)

lemma first_byte_0: "v < 2 ^ 7 \<Longrightarrow> first_byte 0 v = ucast v"
  by (simp add: first_byte_def flip: take_bit_eq_mask add: take_bit_self)

lemma drop_bit_lt: "(v::64 word) < 2 ^ (m + j) \<Longrightarrow> take_bit j (drop_bit m v) = drop_bit m v"
  by (rule bit_word_eqI) (auto simp: bit_simps dest!: lt_bit)

lemma first_byte_1:
  assumes "v < 2 ^ 14"
  shows "first_byte (Suc 0) v = ucast (0x80 OR drop_bit 8 v)"
proof -
  have e: "drop_bit 8 v AND mask 6 = drop_bit 8 v"
    using drop_bit_lt [of v 8 6] assms by (simp add: take_bit_eq_mask)
  have "first_byte (Suc 0) v = ucast (push_bit 7 (mask 1) OR (drop_bit 8 v AND mask 6) :: 64 word)"
    by (simp add: first_byte_def)
  also have "\<dots> = ucast (push_bit 7 (mask 1) OR drop_bit 8 v :: 64 word)"
    by (simp only: e)
  finally show ?thesis by (simp add: mask_eq_exp_minus_1)
qed

lemma first_byte_numeral:
  "first_byte 2 v = ucast (0xC0 OR (drop_bit 16 v AND 0x1F))"
  "first_byte 3 v = ucast (0xE0 OR (drop_bit 24 v AND 0x0F))"
  "first_byte 4 v = ucast (0xF0 OR (drop_bit 32 v AND 0x07))"
  "first_byte 5 v = ucast (0xF8 OR (drop_bit 40 v AND 0x03))"
  "first_byte 6 v = ucast (0xFC OR (drop_bit 48 v AND 0x01))"
  "first_byte 7 v = 0xFE"
  by (simp_all add: first_byte_def mask_eq_exp_minus_1)

lemma leading_ones_first_byte:
  assumes "k \<le> 7"
  shows "leading_ones (first_byte k v) = k"
proof -
  from assms consider "k = 0" | "k = 1" | "k = 2" | "k = 3" | "k = 4" | "k = 5" | "k = 6" | "k = 7"
    by linarith
  then show ?thesis
  proof cases
    case 1 then show ?thesis using first_bits(2) [of 0 v] by (simp add: leading_ones_def)
  next
    case 2 then show ?thesis
      using first_bits(2) [of 1 v] first_bits(1) [of 1 _ v] by (simp add: leading_ones_def)
  next
    case 3 then show ?thesis
      using first_bits(2) [of 2 v] first_bits(1) [of 2 _ v] by (simp add: leading_ones_def)
  next
    case 4 then show ?thesis
      using first_bits(2) [of 3 v] first_bits(1) [of 3 _ v] by (simp add: leading_ones_def)
  next
    case 5 then show ?thesis
      using first_bits(2) [of 4 v] first_bits(1) [of 4 _ v] by (simp add: leading_ones_def)
  next
    case 6 then show ?thesis
      using first_bits(2) [of 5 v] first_bits(1) [of 5 _ v] by (simp add: leading_ones_def)
  next
    case 7 then show ?thesis
      using first_bits(2) [of 6 v] first_bits(1) [of 6 _ v] by (simp add: leading_ones_def)
  next
    case 8 then show ?thesis
      by (simp add: first_byte_numeral leading_ones_def)
  qed
qed

lemma ReadNumber_short:
  assumes "k \<le> 7" "v < 2 ^ (7 * k + 7)"
  shows "ReadNumber (first_byte k v # le_bytes k v @ tail) = Some (v, k + 1)"
proof -
  have "push_bit (8 * k) (ucast (take_bit (7 - k) (first_byte k v))) OR take_bit (8 * k) v = v"
    using first_low [OF assms(2) assms(1)] by (simp add: split_v)
  then show ?thesis
    by (simp add: ReadNumber_def leading_ones_first_byte [OF assms(1)] le_value_le_bytes)
qed

lemma ReadNumber_long: "ReadNumber (0xFF # le_bytes 8 v @ tail) = Some (v, 9)"
proof -
  have "leading_ones 0xFF = 8" by (simp add: leading_ones_def)
  moreover have "take_bit 64 v = v" by (rule bit_word_eqI) (simp add: bit_simps)
  ultimately show ?thesis
    by (simp add: ReadNumber_def le_value_le_bytes)
qed

lemma WriteNumber_alt:
  "WriteNumber v = (if varint_k v = 8 then 0xFF else first_byte (varint_k v) v) # le_bytes (varint_k v) v"
  by (simp add: WriteNumber_def varint_k_def le_bytes_explicit first_byte_0 first_byte_1
      first_byte_numeral)

lemma varint_k_bound: "varint_k v \<le> 8" "varint_k v \<le> 7 \<Longrightarrow> v < 2 ^ (7 * varint_k v + 7)"
  by (simp_all add: varint_k_def split: if_splits)

lemma write_number_alt:
  "write_number v = (if v < 2 ^ 28 then WriteNumber v else 0xFF # le_bytes 8 v)"
proof -
  have t: "v < 2 ^ 28" if "v < 0x80 \<or> v < 2 ^ 14 \<or> v < 2 ^ 21"
    using that by (auto simp: word_less_nat_alt)
  show ?thesis
    using t by (simp add: write_number_def WriteNumber_def write_number_tail_def le_bytes_def
        mult.commute)
qed

lemma ReadNumber_WriteNumber:
  "ReadNumber (WriteNumber v @ tail) = Some (v, length (WriteNumber v))"
proof (cases "varint_k v = 8")
  case True
  then show ?thesis using ReadNumber_long [of v tail] by (simp add: WriteNumber_alt)
next
  case False
  with varint_k_bound(1) [of v] have k: "varint_k v \<le> 7" by simp
  show ?thesis
    using False ReadNumber_short [OF k varint_k_bound(2) [OF k], of tail]
    by (simp add: WriteNumber_alt)
qed

lemma le_value_bits: "bit (le_value xs) n \<Longrightarrow> n < 8 * length xs"
proof (induction xs arbitrary: n)
  case Nil
  then show ?case by simp
next
  case (Cons b bs)
  from Cons.prems consider "n < 8" | "8 \<le> n" "bit (le_value bs) (n - 8)"
    by (auto simp: bit_simps dest: bit_imp_le_length)
  then show ?case
  proof cases
    case 1
    then show ?thesis by simp
  next
    case 2
    from Cons.IH [OF 2(2)] 2(1) show ?thesis by simp
  qed
qed

lemma bits_lt: 
  assumes "\<And>n. bit (v::64 word) n \<Longrightarrow> n < m" 
  shows "m < 64 \<Longrightarrow> v < 2 ^ m"
proof -
  assume m: "m < 64"
  have "take_bit m v = v"
    by (rule bit_word_eqI) (auto simp: bit_simps dest: assms)
  then have "v = v AND mask m" by (simp add: take_bit_eq_mask)
  then show ?thesis using and_mask_less' [of m v] m by simp
qed

lemma ReadNumber_value_bound:
  assumes "ReadNumber bs = Some (v, n)"
  shows "n \<le> 9 \<and> 1 \<le> n \<and> (n \<le> 8 \<longrightarrow> v < 2 ^ (7 * n))"
proof -
  from assms obtain first rest where bs: "bs = first # rest"
    by (cases bs) (simp_all add: ReadNumber_def)
  let ?k = "leading_ones first"
  have k8: "?k \<le> 8" by (simp add: leading_ones_def)
  from assms bs have len: "?k \<le> length rest" and n: "n = ?k + 1"
    and v: "v = push_bit (8 * ?k) (ucast (take_bit (7 - ?k) first)) OR le_value (take ?k rest)"
    by (auto simp: ReadNumber_def Let_def split: if_splits)
  have "v < 2 ^ (7 * n)" if "n \<le> 8"
  proof (rule bits_lt)
    fix j assume "bit v j"
    then consider "bit (push_bit (8 * ?k) (ucast (take_bit (7 - ?k) first) :: 64 word)) j"
      | "bit (le_value (take ?k rest)) j"
      unfolding v by (auto simp: bit_simps)
    then show "j < 7 * n"
    proof cases
      case 1
      then show ?thesis using that n by (auto simp: bit_simps)
    next
      case 2
      from le_value_bits [OF this] len show ?thesis using n that by simp
    qed
  next
    show "7 * n < 64" using that by simp
  qed
  with k8 n show ?thesis by simp
qed

lemma length_WriteNumber: "length (WriteNumber v) = varint_k v + 1"
  by (simp add: WriteNumber_alt)

lemma WriteNumber_minimal:
  assumes "ReadNumber bs = Some (v, n)"
  shows "length (WriteNumber v) \<le> n"
proof -
  from ReadNumber_value_bound [OF assms]
  have n: "n \<le> 9" "1 \<le> n" and b: "n \<le> 8 \<Longrightarrow> v < 2 ^ (7 * n)" by simp_all
  show ?thesis
  proof (cases "n \<le> 8")
    case False
    with n varint_k_bound(1) [of v] show ?thesis by (simp add: length_WriteNumber)
  next
    case True
    from n True consider "n = 1" | "n = 2" | "n = 3" | "n = 4" | "n = 5" | "n = 6" | "n = 7" | "n = 8"
      by linarith
    then show ?thesis
      using b [OF True] by cases (simp_all add: length_WriteNumber varint_k_def)
  qed
qed


text \<open>
  C1, as amended. For every 64-bit value, \<^verbatim>\<open>WriteNumber\<close> emits an encoding that the
  decoder reads back to the value, consuming exactly the encoded bytes whatever follows
  them, and no byte sequence that decodes to the value is shorter. \<^verbatim>\<open>write_number\<close> of the
  true-streaming writer decodes back in the same way; it equals \<^verbatim>\<open>WriteNumber\<close> below
  \<open>2^28\<close> and emits the nine-byte form for every value from \<open>2^28\<close> on.
\<close>

theorem varint_roundtrip_minimal:
  "ReadNumber (WriteNumber v @ tail) = Some (v, length (WriteNumber v))
   \<and> (\<forall>bs n. ReadNumber bs = Some (v, n) \<longrightarrow> length (WriteNumber v) \<le> n)
   \<and> ReadNumber (write_number v @ tail) = Some (v, length (write_number v))
   \<and> (v < 2 ^ 28 \<longrightarrow> write_number v = WriteNumber v)
   \<and> (2 ^ 28 \<le> v \<longrightarrow> length (write_number v) = 9)"
proof -
  have "ReadNumber (write_number v @ tail) = Some (v, length (write_number v))"
  proof (cases "v < 2 ^ 28")
    case True
    then show ?thesis by (simp add: write_number_alt ReadNumber_WriteNumber)
  next
    case False
    then show ?thesis using ReadNumber_long [of v tail] by (simp add: write_number_alt)
  qed
  moreover have "length (write_number v) = 9" if "2 ^ 28 \<le> v"
    using that by (simp add: write_number_alt not_less [symmetric])
  ultimately show ?thesis
    by (simp add: ReadNumber_WriteNumber WriteNumber_minimal write_number_alt)
qed

theorem varint_roundtrip_minimal_witness:
  "ReadNumber (WriteNumber 300 @ [7]) = Some (300, 2)
   \<and> ReadNumber [0x81, 0x2C] = Some (300, 2) \<and> length (WriteNumber 300) \<le> 2
   \<and> ReadNumber (write_number 300 @ [7]) = Some (300, 2)
   \<and> (300 :: 64 word) < 2 ^ 28 \<and> write_number 300 = WriteNumber 300
   \<and> (2 ^ 28 :: 64 word) \<le> 0x12345678 \<and> length (write_number 0x12345678) = 9"
proof -
  have a: "ReadNumber [0x81, 0x2C] = Some (300, 2)"
    by (simp add: ReadNumber_def leading_ones_def)
  have b: "(300 :: 64 word) < 2 ^ 28" "(2 ^ 28 :: 64 word) \<le> 0x12345678" by simp_all
  have c: "length (WriteNumber 300) = 2" "length (write_number 300) = 2"
    by (simp_all add: WriteNumber_def write_number_def)
  show ?thesis
    using varint_roundtrip_minimal [of 300 "[7]"] varint_roundtrip_minimal [of "0x12345678" "[]"]
      a b c by simp
qed

text \<open>
  C1 as stated fails for \<^verbatim>\<open>write_number\<close>: \<open>2^28\<close> has a five-byte encoding, and
  \<^verbatim>\<open>write_number\<close> emits nine bytes.
\<close>

theorem write_number_not_shortest:
  "length (write_number 0x10000000) = 9
   \<and> ReadNumber [0xF0, 0, 0, 0, 0x10] = Some (0x10000000, 5)"
  by (simp add: write_number_def write_number_tail_def ReadNumber_def leading_ones_def)

subsection \<open>AES-256-CBC decryption and its padding\<close>

lemma verify_padding_iff:
  "ciphertext_len \<le> length plaintext \<Longrightarrow>
   verify_padding plaintext padding_byte i ciphertext_len
     \<longleftrightarrow> (\<forall>j. i \<le> j \<and> j < ciphertext_len \<longrightarrow> plaintext ! j = padding_byte)"
proof (induction plaintext padding_byte i ciphertext_len rule: verify_padding.induct)
  case (1 plaintext padding_byte i ciphertext_len)
  show ?case
  proof (cases "i < ciphertext_len")
    case False
    then show ?thesis by (subst verify_padding.simps) auto
  next
    case True
    show ?thesis
    proof (cases "plaintext ! i = padding_byte")
      case False
      with True show ?thesis by (subst verify_padding.simps) auto
    next
      case eq: True
      have "verify_padding plaintext padding_byte i ciphertext_len
              = verify_padding plaintext padding_byte (i + 1) ciphertext_len"
        using True eq by (subst verify_padding.simps) simp
      also have "\<dots> \<longleftrightarrow> (\<forall>j. i + 1 \<le> j \<and> j < ciphertext_len \<longrightarrow> plaintext ! j = padding_byte)"
        using "1.IH" [OF True _ "1.prems"] eq by simp
      also have "\<dots> \<longleftrightarrow> (\<forall>j. i \<le> j \<and> j < ciphertext_len \<longrightarrow> plaintext ! j = padding_byte)"
      proof (intro iffI allI impI)
        fix j
        assume a: "\<forall>j. i + 1 \<le> j \<and> j < ciphertext_len \<longrightarrow> plaintext ! j = padding_byte"
          and j: "i \<le> j \<and> j < ciphertext_len"
        show "plaintext ! j = padding_byte"
        proof (cases "j = i")
          case True
          with eq show ?thesis by simp
        next
          case False
          with j have "i + 1 \<le> j \<and> j < ciphertext_len" by simp
          with a show ?thesis by blast
        qed
      next
        fix j
        assume "\<forall>j. i \<le> j \<and> j < ciphertext_len \<longrightarrow> plaintext ! j = padding_byte"
          and "i + 1 \<le> j \<and> j < ciphertext_len"
        then show "plaintext ! j = padding_byte" by simp
      qed
      finally show ?thesis .
    qed
  qed
qed


text \<open>
  What \<^verbatim>\<open>sevenzip_decrypt_data\<close> does on a ciphertext whose length is a positive
  multiple of 16, with a buffer that is large enough: it fails with
  \<^verbatim>\<open>SEVENZIP_ERROR_EXTRACT\<close> exactly when the last decrypted byte \<open>pad\<close> is in \<open>[1,16]\<close>
  and one of the last \<open>pad\<close> bytes differs from it; when \<open>pad\<close> is outside \<open>[1,16]\<close> it
  returns \<^verbatim>\<open>SEVENZIP_OK\<close> and the whole decrypted buffer.
\<close>

lemma sevenzip_decrypt_data_cases:
  assumes "length ct > 0" "length ct mod 16 = 0" "length ct \<le> cap"
    and "length (dec ctx iv ct) = length ct"
  shows "sevenzip_decrypt_data dec (Some ctx) (Some iv) (Some ct) (Some cap) =
           (let p = dec ctx iv ct; pad = last p in
            if 0 < pad \<and> pad \<le> 16 then
              (if \<forall>j. length ct - unat pad \<le> j \<and> j < length ct \<longrightarrow> p ! j = pad
               then Some (SEVENZIP_OK, take (length ct - unat pad) p)
               else Some (SEVENZIP_ERROR_EXTRACT, []))
            else Some (SEVENZIP_OK, p))"
proof -
  let ?p = "dec ctx iv ct"
  have ne: "?p \<noteq> []" using assms(1,4) by auto
  have l: "?p ! (length ct - 1) = last ?p"
    using ne assms(4) by (simp add: last_conv_nth)
  have v: "verify_padding ?p pad i (length ct)
             \<longleftrightarrow> (\<forall>j. i \<le> j \<and> j < length ct \<longrightarrow> ?p ! j = pad)" for pad i
    by (rule verify_padding_iff) (simp add: assms(4))
  have t: "take (length ct) ?p = ?p" using assms(4) by simp
  have m: "length ct mod 16 = 0 \<longleftrightarrow> True" "length ct = 0 \<longleftrightarrow> False" "cap < length ct \<longleftrightarrow> False"
    using assms(1-3) by simp_all
  show ?thesis
    unfolding sevenzip_decrypt_data_def AES_BLOCK_SIZE_def
    by (simp only: m t l v Let_def prod.case option.case if_True if_False not_True_eq_False
        of_nat_numeral) 
qed

text \<open>
  C8. The claim requires decryption to fail whenever the last decrypted byte is not in
  \<open>[1,16]\<close>. On a 16-byte buffer that decrypts to fifteen bytes \<open>0x41\<close> followed by
  \<open>0x11 = 17\<close>, \<^verbatim>\<open>sevenzip_decrypt_data\<close> returns \<^verbatim>\<open>SEVENZIP_OK\<close> and all sixteen bytes.
\<close>

theorem decrypt_accepts_padding_byte_out_of_range:
  "sevenzip_decrypt_data no_cipher (Some ()) (Some (replicate 16 0))
     (Some (replicate 15 0x41 @ [0x11])) (Some 16)
   = Some (SEVENZIP_OK, replicate 15 0x41 @ [0x11])"
  by (simp add: sevenzip_decrypt_data_def no_cipher_def AES_BLOCK_SIZE_def nth_append)

subsection \<open>The incompressibility judgment\<close>

lemma length_count_frequencies [simp]:
  "length (count_frequencies xs freq) = length freq"
  by (induction xs arbitrary: freq) simp_all

lemma count_frequencies_nth:
  "length freq = 256 \<Longrightarrow> i < 256 \<Longrightarrow>
   count_frequencies xs freq ! i = freq ! i + count_list xs (of_nat i)"
proof (induction xs arbitrary: freq)
  case Nil
  then show ?case by simp
next
  case (Cons b bs)
  have ub: "unat b < 256" using unsigned_less [of b, where ?'a = nat] by simp
  show ?case
  proof (cases "i = unat b")
    case True
    then have "(of_nat i :: byte) = b" by simp
    with True Cons show ?thesis by simp
  next
    case False
    have "(of_nat i :: byte) \<noteq> b"
    proof
      assume "(of_nat i :: byte) = b"
      then have "unat b = i" using Cons.prems(2) by (auto simp: unat_of_nat)
      with False show False by simp
    qed
    with False Cons show ?thesis by auto
  qed
qed

lemma count_above_filter: "count_above t fs = length (filter (\<lambda>f. f > t) fs)"
  by (induction fs) simp_all

lemma card_byte_values:
  "card {i. i < 256 \<and> P (of_nat i :: byte)} = card {b. P b}"
proof -
  have "unat ` {b::byte. P b} = {i. i < 256 \<and> P (of_nat i :: byte)}"
  proof (intro set_eqI iffI)
    fix i assume "i \<in> unat ` {b::byte. P b}"
    then obtain b where "P b" "i = unat b" by auto
    then show "i \<in> {i. i < 256 \<and> P (of_nat i :: byte)}"
      using unsigned_less [of b, where ?'a = nat] by simp
  next
    fix i assume "i \<in> {i. i < 256 \<and> P (of_nat i :: byte)}"
    then have "i < 256" "P (of_nat i :: byte)" by simp_all
    moreover have "unat (of_nat i :: byte) = i" using \<open>i < 256\<close> by (simp add: unat_of_nat)
    ultimately show "i \<in> unat ` {b::byte. P b}" by (metis (mono_tags) image_eqI mem_Collect_eq)
  qed
  moreover have "inj_on unat {b::byte. P b}" by (meson inj_onI word_unat_eq_iff)
  ultimately show ?thesis by (metis card_image)
qed

lemma unique_bytes_card:
  "unique_bytes data n = card {b. count_list (take n data) b > n div 512}"
proof -
  let ?xs = "take n data"
  let ?f = "count_frequencies ?xs (replicate 256 0)"
  have len: "length ?f = 256" by simp
  have nth: "?f ! i = count_list ?xs (of_nat i)" if "i < 256" for i
    using count_frequencies_nth [of "replicate 256 0" i ?xs] that by simp
  have "unique_bytes data n = card {i. i < length ?f \<and> n div 512 < ?f ! i}"
    by (simp add: unique_bytes_def count_above_filter length_filter_conv_card)
  also have "\<dots> = card {i. i < 256 \<and> n div 512 < count_list ?xs (of_nat i :: byte)}"
    using nth by (intro arg_cong [where f = card]) auto
  also have "\<dots> = card {b. n div 512 < count_list ?xs b}"
    by (rule card_byte_values)
  finally show ?thesis .
qed

lemma sample_size_eq:
  "(if length data < 65536 then length data else 65536) = sample_len data"
  by (simp add: sample_len_def)

lemma is_data_compressible_eq:
  "is_data_compressible data \<longleftrightarrow> length data < 1024 \<or> frequent_byte_values data < 220"
  by (simp add: is_data_compressible_def Let_def sample_size_eq unique_bytes_card
      frequent_byte_values_def)

lemma mv_is_data_compressible_eq:
  "mv_is_data_compressible data \<longleftrightarrow> length data < 1024 \<or> frequent_byte_values data < 200"
  by (simp add: mv_is_data_compressible_def Let_def sample_size_eq unique_bytes_card
      frequent_byte_values_def)

lemma frequent_byte_values_code:
  "frequent_byte_values data = unique_bytes data (sample_len data)"
  by (simp add: frequent_byte_values_def unique_bytes_card)

lemma count_list_upt: "count_list [0..<n] i = (if i < n then 1 else 0)"
  by (induction n) auto

lemma count_list_all_bytes: "count_list all_bytes b = 1"
proof -
  have ub: "unat b < 256" using unsigned_less [of b, where ?'a = nat] by simp
  have inj: "inj_on (of_nat :: nat \<Rightarrow> byte) (set [0..<256])"
  proof (rule inj_onI)
    fix i j :: nat
    assume "i \<in> set [0..<256]" "j \<in> set [0..<256]" "(of_nat i :: byte) = of_nat j"
    then have "i < 256" "j < 256" "unat (of_nat i :: byte) = unat (of_nat j :: byte)" by simp_all
    then show "i = j" by (simp add: unat_of_nat)
  qed
  have "count_list (map of_nat [0..<256]) (of_nat (unat b) :: byte)
          = count_list [0..<256] (unat b)"
    using inj ub by (intro count_list_inj_map) simp_all
  then show ?thesis using ub by (simp add: all_bytes_def count_list_upt)
qed

lemma length_all_bytes: "length all_bytes = 256"
  by (simp add: all_bytes_def)

lemma frequent_all_bytes: "frequent_byte_values all_bytes = 256"
  by (simp add: frequent_byte_values_def sample_len_def length_all_bytes count_list_all_bytes
      card_word)

lemma frequent_all_bytes_4: "frequent_byte_values all_bytes_4 = 256"
  by (simp add: frequent_byte_values_def sample_len_def all_bytes_4_def length_all_bytes
      count_list_all_bytes card_word)

lemma count_list_replicate: "count_list (replicate n x) y = (if x = y then n else 0)"
  by (induction n) auto

lemma frequent_zeros_1024: "frequent_byte_values zeros_1024 = 1"
proof -
  have "{b::byte. 2 < (if 0 = b then 1024 else (0::nat))} = {0}" by auto
  then show ?thesis
    by (simp add: frequent_byte_values_def sample_len_def zeros_1024_def count_list_replicate)
qed

text \<open>
  C5, as amended. The number of frequent byte values that the code computes is the number
  the specification describes. A payload shorter than 1024 bytes is always judged
  compressible. For a payload of at least 1024 bytes, \<^verbatim>\<open>archive_create.c\<close> judges it
  incompressible when more than 220 byte values are frequent and compressible when fewer
  than 220 are; \<^verbatim>\<open>archive_create_multivolume.c\<close> does the same with the bound 200.
  When \<^verbatim>\<open>compress_all_files\<close> of \<^verbatim>\<open>archive_create.c\<close> has data to pack and the Copy coder
  was not asked for, it switches to the Copy coder exactly when the combined data is larger
  than 1 MiB and is judged incompressible.
\<close>

theorem compressibility_judgment:
  "unique_bytes data (sample_len data) = frequent_byte_values data
   \<and> (length data < 1024 \<longrightarrow> is_data_compressible data \<and> mv_is_data_compressible data)
   \<and> (1024 \<le> length data \<and> 220 < frequent_byte_values data \<longrightarrow> \<not> is_data_compressible data)
   \<and> (1024 \<le> length data \<and> frequent_byte_values data < 220 \<longrightarrow> is_data_compressible data)
   \<and> (1024 \<le> length data \<and> 200 < frequent_byte_values data \<longrightarrow> \<not> mv_is_data_compressible data)
   \<and> (1024 \<le> length data \<and> frequent_byte_values data < 200 \<longrightarrow> mv_is_data_compressible data)
   \<and> (\<not> use_copy_codec builder \<and> total_input_size (files builder) \<noteq> 0
        \<and> compress_all_files CrcCalc Lzma2Enc builder = Inr (builder', packed, n)
      \<longrightarrow> (use_copy_codec builder' \<longleftrightarrow>
             1024 * 1024 < total_input_size (files builder)
             \<and> \<not> is_data_compressible (fst (combine_files CrcCalc (files builder)))))"
proof -
  have "\<not> use_copy_codec builder \<and> total_input_size (files builder) \<noteq> 0
        \<and> compress_all_files CrcCalc Lzma2Enc builder = Inr (builder', packed, n)
      \<longrightarrow> (use_copy_codec builder' \<longleftrightarrow>
             1024 * 1024 < total_input_size (files builder)
             \<and> \<not> is_data_compressible (fst (combine_files CrcCalc (files builder))))"
    by (auto simp: compress_all_files_def Let_def case_prod_unfold
        split: option.splits if_splits)
  then show ?thesis
    by (auto simp: is_data_compressible_eq mv_is_data_compressible_eq frequent_byte_values_code)
qed

theorem compressibility_judgment_witness:
  "length all_bytes < 1024 \<and> is_data_compressible all_bytes \<and> mv_is_data_compressible all_bytes
   \<and> 1024 \<le> length all_bytes_4 \<and> 220 < frequent_byte_values all_bytes_4
   \<and> \<not> is_data_compressible all_bytes_4 \<and> \<not> mv_is_data_compressible all_bytes_4
   \<and> 1024 \<le> length zeros_1024 \<and> frequent_byte_values zeros_1024 < 200
   \<and> is_data_compressible zeros_1024 \<and> mv_is_data_compressible zeros_1024
   \<and> \<not> use_copy_codec compress_one_file \<and> total_input_size (files compress_one_file) = 1
   \<and> (\<exists>builder'. compress_all_files crc32 plain_encoder compress_one_file
                      = Inr (builder', [0x61], 1)
                    \<and> \<not> use_copy_codec builder')"
proof -
  have l: "length all_bytes < 1024" "1024 \<le> length all_bytes_4" "1024 \<le> length zeros_1024"
    by (simp_all add: length_all_bytes all_bytes_4_def zeros_1024_def)
  have b: "\<not> use_copy_codec compress_one_file" "total_input_size (files compress_one_file) = 1"
    by (simp_all add: compress_one_file_def store_one_file_def)
  obtain builder' where c: "compress_all_files crc32 plain_encoder compress_one_file
                      = Inr (builder', [0x61], 1)"
    by (simp add: compress_all_files_def compress_one_file_def store_one_file_def
        plain_encoder_def Let_def)
  from compressibility_judgment [of all_bytes compress_one_file crc32 plain_encoder
      builder' "[0x61]" 1] b c
  have "\<not> use_copy_codec builder'" by simp
  with c have e: "\<exists>builder'. compress_all_files crc32 plain_encoder compress_one_file
                      = Inr (builder', [0x61], 1) \<and> \<not> use_copy_codec builder'"
    by blast
  show ?thesis
    using compressibility_judgment [of all_bytes] compressibility_judgment [of all_bytes_4]
      compressibility_judgment [of zeros_1024] l b e
    by (simp add: frequent_all_bytes_4 frequent_zeros_1024)
qed

text \<open>
  C5 as stated fails: the 256 distinct byte values form a payload in which 256 values,
  more than 220, are frequent, and it is judged compressible because it is shorter than
  1024 bytes.
\<close>

theorem small_payload_always_compressible:
  "220 < frequent_byte_values all_bytes \<and> is_data_compressible all_bytes"
  by (simp add: frequent_all_bytes is_data_compressible_def length_all_bytes)

subsection \<open>The volume source\<close>

lemma scan_volumes_from_2:
  "2 \<le> i \<Longrightarrow> i \<le> g \<Longrightarrow> g \<le> 1000 \<Longrightarrow>
   (\<And>j. i \<le> j \<Longrightarrow> j < g \<Longrightarrow> fs (volume_path b j) \<noteq> None) \<Longrightarrow>
   (g \<le> 999 \<Longrightarrow> fs (volume_path b g) = None) \<Longrightarrow>
   scan_volumes fs b i opened
     = opened @ map (\<lambda>j. (volume_path b j, length (the (fs (volume_path b j))))) [i..<g]"
proof (induction fs b i opened rule: scan_volumes.induct)
  case (1 fs b i opened)
  show ?case
  proof (cases "i = g")
    case True
    then show ?thesis using "1.prems" by (subst scan_volumes.simps) auto
  next
    case False
    with "1.prems" have ig: "i < g" and i999: "i \<le> 999" and i1: "i \<noteq> 1" by simp_all
    from "1.prems"(4) [of i] ig obtain f where f: "fs (volume_path b i) = Some f" by auto
    have "scan_volumes fs b i opened
            = scan_volumes fs b (i + 1) (opened @ [(volume_path b i, length f)])"
      using i999 i1 f by (subst scan_volumes.simps) simp
    also have "\<dots> = (opened @ [(volume_path b i, length f)])
                 @ map (\<lambda>j. (volume_path b j, length (the (fs (volume_path b j))))) [i + 1..<g]"
      using "1.prems" ig by (intro "1.IH"(3) [OF i999 i1 f]) simp_all
    also have "\<dots> = opened @ map (\<lambda>j. (volume_path b j, length (the (fs (volume_path b j))))) [i..<g]"
      using ig f by (simp add: upt_conv_Cons)
    finally show ?thesis .
  qed
qed

lemma scan_volumes_first:
  "scan_volumes fs b (Suc 0) [] =
     (case fs (b @ ''.001'') of
        Some f \<Rightarrow> scan_volumes fs b 2 [(b @ ''.001'', length f)]
      | None \<Rightarrow> (case fs b of
                   Some f \<Rightarrow> scan_volumes fs b 2 [(b, length f)]
                 | None \<Rightarrow> []))"
  by (subst scan_volumes.simps) (simp split: option.splits add: numeral_2_eq_2)

lemma scan_volumes_prefix: "\<exists>more. scan_volumes fs b i opened = opened @ more"
proof (induction fs b i opened rule: scan_volumes.induct)
  case (1 fs b i opened)
  show ?case
  proof (cases "i \<le> 999")
    case False
    then show ?thesis by (subst scan_volumes.simps) simp
  next
    case le: True
    show ?thesis
    proof (cases "i = 1")
      case True
      show ?thesis
      proof (cases "fs (b @ ''.001'')")
        case (Some f)
        from "1.IH"(2) [OF le True Some] obtain more where
          "scan_volumes fs b (i + 1) (opened @ [(b @ ''.001'', length f)])
             = (opened @ [(b @ ''.001'', length f)]) @ more" by blast
        then show ?thesis using le True Some by (subst scan_volumes.simps) simp
      next
        case None
        show ?thesis
        proof (cases "fs b")
          case (Some f)
          from "1.IH"(1) [OF le True None Some] obtain more where
            "scan_volumes fs b (i + 1) (opened @ [(b, length f)])
               = (opened @ [(b, length f)]) @ more" by blast
          then show ?thesis using le True None Some by (subst scan_volumes.simps) simp
        next
          case n2: None
          then show ?thesis using le True None by (subst scan_volumes.simps) simp
        qed
      qed
    next
      case False
      show ?thesis
      proof (cases "fs (volume_path b i)")
        case (Some f)
        from "1.IH"(3) [OF le False Some] obtain more where
          "scan_volumes fs b (i + 1) (opened @ [(volume_path b i, length f)])
             = (opened @ [(volume_path b i, length f)]) @ more" by blast
        then show ?thesis using le False Some by (subst scan_volumes.simps) simp
      next
        case None
        then show ?thesis using le False by (subst scan_volumes.simps) simp
      qed
    qed
  qed
qed

lemma cumulative_offsets_last:
  "n = length sizes \<Longrightarrow> cumulative_offsets off sizes ! n = off + sum_list sizes"
  by (induction sizes arbitrary: off n) simp_all

lemma open_split_volumes_None:
  "open_split_volumes fs path = None
     \<longleftrightarrow> fs (strip_volume_suffix path @ ''.001'') = None
         \<and> fs (strip_volume_suffix path) = None"
proof -
  let ?b = "strip_volume_suffix path"
  have "scan_volumes fs ?b 1 [] = [] \<longleftrightarrow> fs (?b @ ''.001'') = None \<and> fs ?b = None"
  proof (cases "fs (?b @ ''.001'')")
    case (Some f)
    from scan_volumes_prefix [of fs ?b 2 "[(?b @ ''.001'', length f)]"]
    show ?thesis using Some by (auto simp: scan_volumes_first)
  next
    case None
    show ?thesis
    proof (cases "fs ?b")
      case (Some f)
      from scan_volumes_prefix [of fs ?b 2 "[(?b, length f)]"]
      show ?thesis using None Some by (auto simp: scan_volumes_first)
    next
      case n2: None
      then show ?thesis using None by (simp add: scan_volumes_first)
    qed
  qed
  then show ?thesis by (simp add: open_split_volumes_def Let_def)
qed

lemma open_split_volumes_Some:
  assumes first: "fs (b @ ''.001'') \<noteq> None \<or> fs b \<noteq> None"
    and b: "b = strip_volume_suffix path"
    and g: "2 \<le> g" "g \<le> 1000"
    and ex: "\<forall>j. 2 \<le> j \<and> j < g \<longrightarrow> fs (volume_path b j) \<noteq> None"
    and stop: "g \<le> 999 \<longrightarrow> fs (volume_path b g) = None"
  shows "\<exists>st. open_split_volumes fs path = Some st
           \<and> volumes st = (if fs (b @ ''.001'') \<noteq> None then b @ ''.001'' else b)
                            # map (volume_path b) [2..<g]
           \<and> volume_sizes st = map (\<lambda>p. length (the (fs p))) (volumes st)
           \<and> total_size st = sum_list (volume_sizes st)"
proof -
  define first where "first = (if fs (b @ ''.001'') \<noteq> None then b @ ''.001'' else b)"
  let ?rest = "map (\<lambda>j. (volume_path b j, length (the (fs (volume_path b j))))) [2..<g]"
  have rest: "scan_volumes fs b 2 opened = opened @ ?rest" for opened
    using g ex stop by (intro scan_volumes_from_2) simp_all
  have "scan_volumes fs b (Suc 0) [] = (first, length (the (fs first))) # ?rest"
    using first by (auto simp: scan_volumes_first rest first_def split: option.splits)
  then have "scan_volumes fs b 1 [] = (first, length (the (fs first))) # ?rest" by simp
  then show ?thesis
    unfolding open_split_volumes_def b [symmetric] Let_def first_def [symmetric]
    by (simp add: cumulative_offsets_last comp_def)
qed

lemma volume_path_1: "volume_path b 1 = b @ ''.001''"
  by (simp add: volume_path_def decimal_digit_def)


text \<open>
  C7, as amended. With \<open>b\<close> the base path, the volume source opens \<open>b.001\<close> (or, when
  that does not exist, the file named exactly \<open>b\<close>) and then \<open>b.002\<close>, \<open>b.003\<close>, ... in
  ascending order up to the first index \<open>g\<close> that is missing (at most up to 999). The open
  fails, with \<^verbatim>\<open>SEVENZIP_ERROR_OPEN_FILE\<close>, exactly when neither \<open>b.001\<close> nor \<open>b\<close> exists;
  otherwise it succeeds with the volumes before \<open>g\<close>, whatever exists after \<open>g\<close>, and the
  total size is the sum of their sizes.
\<close>

theorem open_split_volumes_stops_at_first_missing:
  "(open_split_volumes fs path = None
      \<longleftrightarrow> fs (strip_volume_suffix path @ ''.001'') = None \<and> fs (strip_volume_suffix path) = None)
   \<and> (sevenzip_extract_streaming_open fs (Some path) (Some out) = Inl SEVENZIP_ERROR_OPEN_FILE
      \<longleftrightarrow> fs (strip_volume_suffix path @ ''.001'') = None \<and> fs (strip_volume_suffix path) = None)
   \<and> ((fs (strip_volume_suffix path @ ''.001'') \<noteq> None \<or> fs (strip_volume_suffix path) \<noteq> None)
       \<and> 2 \<le> g \<and> g \<le> 1000
       \<and> (\<forall>j. 2 \<le> j \<and> j < g \<longrightarrow> fs (volume_path (strip_volume_suffix path) j) \<noteq> None)
       \<and> (g \<le> 999 \<longrightarrow> fs (volume_path (strip_volume_suffix path) g) = None)
      \<longrightarrow> (\<exists>st. open_split_volumes fs path = Some st
             \<and> sevenzip_extract_streaming_open fs (Some path) (Some out) = Inr st
             \<and> volumes st =
                 (if fs (strip_volume_suffix path @ ''.001'') \<noteq> None
                  then strip_volume_suffix path @ ''.001'' else strip_volume_suffix path)
                 # map (volume_path (strip_volume_suffix path)) [2..<g]
             \<and> volume_sizes st = map (\<lambda>p. length (the (fs p))) (volumes st)
             \<and> total_size st = sum_list (volume_sizes st)))"
proof (intro conjI impI)
  show n: "open_split_volumes fs path = None
      \<longleftrightarrow> fs (strip_volume_suffix path @ ''.001'') = None \<and> fs (strip_volume_suffix path) = None"
    by (rule open_split_volumes_None)
  show "sevenzip_extract_streaming_open fs (Some path) (Some out) = Inl SEVENZIP_ERROR_OPEN_FILE
      \<longleftrightarrow> fs (strip_volume_suffix path @ ''.001'') = None \<and> fs (strip_volume_suffix path) = None"
    unfolding n [symmetric]
    by (simp add: sevenzip_extract_streaming_open_def split: option.splits)
next
  let ?b = "strip_volume_suffix path"
  assume h: "(fs (?b @ ''.001'') \<noteq> None \<or> fs ?b \<noteq> None) \<and> 2 \<le> g \<and> g \<le> 1000
       \<and> (\<forall>j. 2 \<le> j \<and> j < g \<longrightarrow> fs (volume_path ?b j) \<noteq> None)
       \<and> (g \<le> 999 \<longrightarrow> fs (volume_path ?b g) = None)"
  from open_split_volumes_Some [of fs ?b path g] h
  obtain st where st: "open_split_volumes fs path = Some st"
    "volumes st = (if fs (?b @ ''.001'') \<noteq> None then ?b @ ''.001'' else ?b)
                    # map (volume_path ?b) [2..<g]"
    "volume_sizes st = map (\<lambda>p. length (the (fs p))) (volumes st)"
    "total_size st = sum_list (volume_sizes st)"
    by blast
  moreover have "sevenzip_extract_streaming_open fs (Some path) (Some out) = Inr st"
    using st(1) by (simp add: sevenzip_extract_streaming_open_def)
  ultimately show "\<exists>st. open_split_volumes fs path = Some st
             \<and> sevenzip_extract_streaming_open fs (Some path) (Some out) = Inr st
             \<and> volumes st = (if fs (?b @ ''.001'') \<noteq> None then ?b @ ''.001'' else ?b)
                 # map (volume_path ?b) [2..<g]
             \<and> volume_sizes st = map (\<lambda>p. length (the (fs p))) (volumes st)
             \<and> total_size st = sum_list (volume_sizes st)"
    by blast
qed

theorem open_split_volumes_stops_at_first_missing_witness:
  "strip_volume_suffix ''a.7z.001'' = ''a.7z''
   \<and> disk_two_volumes ''a.7z.001'' \<noteq> None
   \<and> disk_two_volumes (volume_path ''a.7z'' 2) \<noteq> None
   \<and> disk_two_volumes (volume_path ''a.7z'' 3) = None
   \<and> (\<exists>st. open_split_volumes disk_two_volumes ''a.7z.001'' = Some st
          \<and> volumes st = [''a.7z.001'', ''a.7z.002''] \<and> volume_sizes st = [3, 2]
          \<and> total_size st = 5)
   \<and> disk_single ''a.7z.001'' = None \<and> disk_single ''a.7z'' \<noteq> None
   \<and> disk_single (volume_path ''a.7z'' 2) = None
   \<and> (\<exists>st. open_split_volumes disk_single ''a.7z'' = Some st \<and> volumes st = [''a.7z''])
   \<and> open_split_volumes Map.empty ''a.7z'' = None"
proof -
  have b: "strip_volume_suffix ''a.7z.001'' = ''a.7z''" "strip_volume_suffix ''a.7z'' = ''a.7z''"
    by (simp_all add: strip_volume_suffix_def)
  have d: "disk_two_volumes ''a.7z.001'' = Some [1, 2, 3]"
    "disk_two_volumes (volume_path ''a.7z'' 2) = Some [4, 5]"
    "disk_two_volumes (volume_path ''a.7z'' 3) = None"
    by (simp_all add: disk_two_volumes_def volume_path_def decimal_digit_def)
  have s: "disk_single ''a.7z.001'' = None" "disk_single ''a.7z'' = Some [1, 2, 3]"
    "disk_single (volume_path ''a.7z'' 2) = None"
    by (simp_all add: disk_single_def volume_path_def decimal_digit_def)
  have a2: "\<forall>j. 2 \<le> j \<and> j < 3 \<longrightarrow> disk_two_volumes (volume_path ''a.7z'' j) \<noteq> None"
  proof (intro allI impI)
    fix j :: nat assume "2 \<le> j \<and> j < 3"
    then have "j = 2" by simp
    then show "disk_two_volumes (volume_path ''a.7z'' j) \<noteq> None" using d(2) by simp
  qed
  have u: "[2..<3] = [2::nat]" "volume_path ''a.7z'' 2 = ''a.7z.002''"
    by (simp_all add: upt_rec volume_path_def decimal_digit_def)
  have d2: "disk_two_volumes ''a.7z.002'' = Some [4, 5]"
    by (simp add: disk_two_volumes_def)
  from open_split_volumes_stops_at_first_missing [of disk_two_volumes "''a.7z.001''" "''out''" 3]
  have 1: "\<exists>st. open_split_volumes disk_two_volumes ''a.7z.001'' = Some st
          \<and> volumes st = [''a.7z.001'', ''a.7z.002''] \<and> volume_sizes st = [3, 2]
          \<and> total_size st = 5"
    using a2 by (auto simp: b d u d2)
  from open_split_volumes_stops_at_first_missing [of disk_single "''a.7z''" "''out''" 2]
  have 2: "\<exists>st. open_split_volumes disk_single ''a.7z'' = Some st \<and> volumes st = [''a.7z'']"
    by (auto simp: b s)
  from open_split_volumes_stops_at_first_missing [of Map.empty "''a.7z''" "''out''" 2]
  have 3: "open_split_volumes Map.empty ''a.7z'' = None" by simp
  show ?thesis using b d s 1 2 3 by simp
qed

text \<open>
  C7 as stated fails: with \<open>a.7z.001\<close> and \<open>a.7z.003\<close> on disk and \<open>a.7z.002\<close> missing, the
  open succeeds with the single volume \<open>a.7z.001\<close>.
\<close>

theorem gap_does_not_fail_the_open:
  "disk_with_gap ''a.7z.002'' = None \<and> disk_with_gap ''a.7z.003'' \<noteq> None
   \<and> sevenzip_extract_streaming_open disk_with_gap (Some ''a.7z.001'') (Some ''out'')
       = Inr \<lparr> volumes = [''a.7z.001''], volume_count = 1, volume_sizes = [3],
               volume_offsets = [0, 3], total_size = 3, current_volume = 0, current_pos = 0,
               bytes_extracted = 0 \<rparr>"
proof -
  have "scan_volumes disk_with_gap ''a.7z'' 1 [] = [(''a.7z.001'', 3)]"
    by (simp add: scan_volumes.simps disk_with_gap_def volume_path_def decimal_digit_def)
  then show ?thesis
    by (simp add: sevenzip_extract_streaming_open_def open_split_volumes_def
        strip_volume_suffix_def disk_with_gap_def)
qed

subsection \<open>The sizes of the substreams\<close>

lemma count_non_dirs_length: "count_non_dirs fs = length (non_dir_sizes fs)"
  by (induction fs) (simp_all add: non_dir_sizes_def)

lemma write_sizes_take:
  "write_sizes fs written num_files
     = concat (map WriteNumber (take (num_files - 1 - written) (non_dir_sizes fs)))"
proof (induction fs arbitrary: written)
  case Nil
  show ?case by (simp add: non_dir_sizes_def)
next
  case (Cons f fs)
  show ?case
  proof (cases "written < num_files - 1")
    case False
    then show ?thesis by simp
  next
    case True
    then obtain m where m: "num_files - 1 - written = Suc m" "num_files - 1 - (written + 1) = m"
      by (metis Suc_diff_Suc diff_diff_left plus_1_eq_Suc add.commute zero_less_diff less_imp_Suc_add diff_Suc_1 diff_add_inverse)
    show ?thesis
      using True Cons.IH [of "written + 1"] Cons.IH [of written] m
      by (simp add: non_dir_sizes_def)
  qed
qed

text \<open>
  In \<^verbatim>\<open>archive_create.c\<close> the size group leaves the last size out: for \<open>N > 1\<close> entries that
  are not directories it holds the sizes of all of them but the last, in file-list order.
\<close>

lemma substream_sizes_all_but_last:
  "substream_sizes fs =
     (if length (non_dir_sizes fs) > 1
      then [0x09] @ concat (map WriteNumber (butlast (non_dir_sizes fs)))
      else [])"
  by (simp add: substream_sizes_def Let_def count_non_dirs_length write_sizes_take butlast_conv_take)

text \<open>
  C3. In the true-streaming writer the last size is left out only when the last entry of
  the file list is itself the last substream. For the file list of two files of 1 and 2
  bytes followed by a directory, there are \<open>N = 2\<close> substreams and the size group holds
  two numbers, the sizes of both.
\<close>

theorem streaming_size_group_keeps_last_size:
  "count_file_streams two_files_then_dir = 2
   \<and> streaming_substream_sizes two_files_then_dir = [0x09, 0x01, 0x02]
   \<and> streaming_substreams_info two_files_then_dir
       = [0x08, 0x0D, 0x02, 0x09, 0x01, 0x02, 0x0A, 0x01,
          0x44, 0x33, 0x22, 0x11, 0x88, 0x77, 0x66, 0x55, 0x00]"
  by (simp add: two_files_then_dir_def streaming_substreams_info_def
      streaming_substream_sizes_def write_number_def)

subsection \<open>The EmptyStream bit vector\<close>

lemma length_dir_bits [simp]: "length (dir_bits ds i p) = length p"
  by (induction ds arbitrary: i p) simp_all

lemma set_dir_bits_dir_bits: "set_dir_bits fs i p = dir_bits (map f_is_dir fs) i p"
  by (induction fs arbitrary: i p) simp_all

lemma shifted_0x80: "(ucast (drop_bit (i mod 8) (0x80 :: 32 word)) :: byte) = push_bit (7 - i mod 8) 1"
proof -
  have "i mod 8 < 8" by simp
  then consider "i mod 8 = 0" | "i mod 8 = 1" | "i mod 8 = 2" | "i mod 8 = 3" | "i mod 8 = 4"
    | "i mod 8 = 5" | "i mod 8 = 6" | "i mod 8 = 7"
    by linarith
  then show ?thesis by cases simp_all
qed

lemma streaming_set_dir_bits_dir_bits:
  "streaming_set_dir_bits fs i p = dir_bits (map m_is_directory fs) i p"
  by (induction fs arbitrary: i p) (simp_all add: shifted_0x80)

lemma set_one_bit:
  assumes "k < 8 * length p" "j < 8 * length p"
  shows "empty_stream_bit (p[k div 8 := (p ! (k div 8)) OR push_bit (7 - k mod 8) 1]) j
           \<longleftrightarrow> empty_stream_bit p j \<or> j = k"
proof (cases "j div 8 = k div 8")
  case True
  have kd: "k div 8 < length p" using assms(1) by (simp add: less_mult_imp_div_less mult.commute)
  have "7 - j mod 8 = 7 - k mod 8 \<longleftrightarrow> j = k"
  proof
    assume "7 - j mod 8 = 7 - k mod 8"
    moreover have "j mod 8 < 8" "k mod 8 < 8" by simp_all
    ultimately have "j mod 8 = k mod 8" by linarith
    with True show "j = k" by (metis div_mult_mod_eq)
  qed simp
  then have "bit (push_bit (7 - k mod 8) (1 :: byte)) (7 - j mod 8) \<longleftrightarrow> j = k"
    by (auto simp: bit_simps)
  then show ?thesis using True kd by (simp add: empty_stream_bit_def bit_simps)
next
  case False
  then have "j \<noteq> k" by auto
  with False show ?thesis by (simp add: empty_stream_bit_def)
qed

lemma dir_bits_bit:
  "k + length ds \<le> 8 * length p \<Longrightarrow> j < 8 * length p \<Longrightarrow>
   empty_stream_bit (dir_bits ds k p) j
     \<longleftrightarrow> empty_stream_bit p j \<or> (k \<le> j \<and> j < k + length ds \<and> ds ! (j - k))"
proof (induction ds arbitrary: k p)
  case Nil
  then show ?case by auto
next
  case (Cons d ds)
  let ?p = "if d then p[k div 8 := (p ! (k div 8)) OR push_bit (7 - k mod 8) 1] else p"
  have len: "length ?p = length p" by simp
  have k: "k < 8 * length p" using Cons.prems(1) by simp
  have "empty_stream_bit (dir_bits (d # ds) k p) j = empty_stream_bit (dir_bits ds (k + 1) ?p) j"
    by simp
  also have "\<dots> \<longleftrightarrow> empty_stream_bit ?p j \<or> (k + 1 \<le> j \<and> j < k + 1 + length ds \<and> ds ! (j - (k + 1)))"
    using Cons.prems by (intro Cons.IH) (simp_all only: len, simp_all)
  also have "empty_stream_bit ?p j \<longleftrightarrow> empty_stream_bit p j \<or> (d \<and> j = k)"
    using set_one_bit [OF k Cons.prems(2)] by simp
  finally show ?case
    by (cases "j = k") (auto simp: nth_Cons' Suc_le_eq)
qed

lemma zero_mask_bit: "j < 8 * n \<Longrightarrow> \<not> empty_stream_bit (replicate n 0) j"
  by (simp add: empty_stream_bit_def less_mult_imp_div_less mult.commute)

lemma dir_bits_from_zero:
  assumes "j < 8 * ((length ds + 7) div 8)"
  shows "empty_stream_bit (dir_bits ds 0 (replicate ((length ds + 7) div 8) 0)) j
           \<longleftrightarrow> j < length ds \<and> ds ! j"
proof -
  have "0 + length ds \<le> 8 * length (replicate ((length ds + 7) div 8) (0 :: byte))" by simp
  from dir_bits_bit [OF this, of j] assms zero_mask_bit [OF assms]
  show ?thesis by simp
qed

lemma empty_stream_property_bits:
  assumes "\<exists>f \<in> set fs. f_is_dir f"
  shows "\<exists>bits. empty_stream_property fs
                  = [0x0E] @ WriteNumber (of_nat ((length fs + 7) div 8)) @ bits
           \<and> length bits = (length fs + 7) div 8
           \<and> (\<forall>i. i < 8 * length bits \<longrightarrow>
                  (empty_stream_bit bits i \<longleftrightarrow> i < length fs \<and> f_is_dir (fs ! i)))"
proof -
  let ?n = "(length fs + 7) div 8"
  let ?bits = "dir_bits (map f_is_dir fs) 0 (replicate ?n 0)"
  have "empty_stream_property fs = [0x0E] @ WriteNumber (of_nat ?n) @ ?bits"
    using assms by (simp add: empty_stream_property_def Let_def set_dir_bits_dir_bits)
  moreover have "length ?bits = ?n" by simp
  moreover have "empty_stream_bit ?bits i \<longleftrightarrow> i < length fs \<and> f_is_dir (fs ! i)"
    if "i < 8 * length ?bits" for i
    using dir_bits_from_zero [of i "map f_is_dir fs"] that by auto
  ultimately show ?thesis by blast
qed

lemma streaming_empty_stream_property_bits:
  assumes "\<exists>f \<in> set ms. m_is_directory f"
  shows "\<exists>bits. streaming_empty_stream_property ms
                  = [0x0E] @ write_number (of_nat ((length ms + 7) div 8)) @ bits
           \<and> length bits = (length ms + 7) div 8
           \<and> (\<forall>i. i < 8 * length bits \<longrightarrow>
                  (empty_stream_bit bits i \<longleftrightarrow> i < length ms \<and> m_is_directory (ms ! i)))"
proof -
  let ?n = "(length ms + 7) div 8"
  let ?bits = "dir_bits (map m_is_directory ms) 0 (replicate ?n 0)"
  have "streaming_empty_stream_property ms = [0x0E] @ write_number (of_nat ?n) @ ?bits"
    using assms
    by (simp add: streaming_empty_stream_property_def Let_def streaming_set_dir_bits_dir_bits)
  moreover have "length ?bits = ?n" by simp
  moreover have "empty_stream_bit ?bits i \<longleftrightarrow> i < length ms \<and> m_is_directory (ms ! i)"
    if "i < 8 * length ?bits" for i
    using dir_bits_from_zero [of i "map m_is_directory ms"] that by auto
  ultimately show ?thesis by blast
qed

text \<open>
  The true-streaming writer treats a regular file of size 0 as an entry without a stream:
  it is left out of the packed data, of the number of substreams, of the sizes and of the
  CRCs. The writer does not mark it in the EmptyStream property, though: for a file of 1
  byte, a file of 0 bytes and a file of 2 bytes the header holds three entries, declares
  two substreams and has no EmptyStream property.
\<close>

lemma streaming_zero_byte_file_is_not_marked:
  "length file_empty_file = 3 \<and> count_file_streams file_empty_file = 2
   \<and> m_size (file_empty_file ! 1) = 0 \<and> \<not> m_is_directory (file_empty_file ! 1)
   \<and> streaming_empty_stream_property file_empty_file = []"
  by (simp add: file_empty_file_def streaming_empty_stream_property_def)

text \<open>
  C4, as amended. In \<^verbatim>\<open>archive_create.c\<close> the EmptyStream property is written only when
  the file list holds a directory; its bit vector has one bit per entry, most significant
  bit first, and the bit of entry \<open>i\<close> is set if and only if entry \<open>i\<close> is a directory. The
  bit of a regular file is clear whatever its size, the padding bits are clear, and the
  header declares one substream for every entry that is not a directory.
\<close>

theorem empty_stream_bits_mark_directories:
  "((\<exists>f \<in> set fs. f_is_dir f) \<longrightarrow>
      (\<exists>bits. empty_stream_property fs
                 = [0x0E] @ WriteNumber (of_nat ((length fs + 7) div 8)) @ bits
          \<and> length bits = (length fs + 7) div 8
          \<and> (\<forall>i. i < 8 * length bits \<longrightarrow>
                 (empty_stream_bit bits i \<longleftrightarrow> i < length fs \<and> f_is_dir (fs ! i)))))
   \<and> (\<not> (\<exists>f \<in> set fs. f_is_dir f) \<longrightarrow> empty_stream_property fs = [])
   \<and> count_non_dirs fs = length (filter (\<lambda>f. \<not> f_is_dir f) fs)"
  using empty_stream_property_bits [of fs] count_non_dirs_length [of fs]
  by (simp add: empty_stream_property_def non_dir_sizes_def)

theorem empty_stream_bits_mark_directories_witness:
  "(\<exists>f \<in> set dir_then_empty_file. f_is_dir f)
   \<and> empty_stream_property dir_then_empty_file = [0x0E, 0x01, 0x80]
   \<and> empty_stream_bit [0x80] 0 \<and> f_is_dir (dir_then_empty_file ! 0)
   \<and> \<not> empty_stream_bit [0x80] 1 \<and> \<not> f_is_dir (dir_then_empty_file ! 1)
   \<and> count_non_dirs dir_then_empty_file = 1
   \<and> \<not> (\<exists>f \<in> set one_empty_file. f_is_dir f) \<and> empty_stream_property one_empty_file = []
   \<and> count_non_dirs one_empty_file = 1"
proof -
  have e: "empty_stream_property dir_then_empty_file = [0x0E, 0x01, 0x80]"
    by (simp add: empty_stream_property_def dir_then_empty_file_def WriteNumber_def)
  have b: "empty_stream_bit [0x80] 0" "\<not> empty_stream_bit [0x80] 1"
    by (simp_all add: empty_stream_bit_def)
  have d: "f_is_dir (dir_then_empty_file ! 0)" "\<not> f_is_dir (dir_then_empty_file ! 1)"
    "\<exists>f \<in> set dir_then_empty_file. f_is_dir f"
    "\<not> (\<exists>f \<in> set one_empty_file. f_is_dir f)"
    "length (filter (\<lambda>f. \<not> f_is_dir f) dir_then_empty_file) = 1"
    "length (filter (\<lambda>f. \<not> f_is_dir f) one_empty_file) = 1"
    by (simp_all add: dir_then_empty_file_def one_empty_file_def)
  show ?thesis
    using empty_stream_bits_mark_directories [of dir_then_empty_file]
      empty_stream_bits_mark_directories [of one_empty_file]
      e b d
    by simp
qed

text \<open>
  C4 as stated fails: in the list of a directory followed by a regular file of size 0,
  the bit of the zero-byte file is clear in the property that \<^verbatim>\<open>archive_create.c\<close> emits,
  and the file is the one substream that the header declares.
\<close>

theorem zero_byte_file_bit_is_clear:
  "\<not> f_is_dir (dir_then_empty_file ! 1) \<and> f_size (dir_then_empty_file ! 1) = 0
   \<and> empty_stream_property dir_then_empty_file = [0x0E, 0x01, 0x80]
   \<and> \<not> empty_stream_bit [0x80] 1
   \<and> count_non_dirs dir_then_empty_file = 1"
  by (simp add: empty_stream_property_def dir_then_empty_file_def WriteNumber_def
      empty_stream_bit_def)

subsection \<open>The Signature Header\<close>

lemma length_le32 [simp]: "length (le32 w) = 4"
  by (simp add: le32_def)

lemma length_le64 [simp]: "length (le64 w) = 8"
  by (simp add: le64_def)

lemma length_k7zSignature [simp]: "length k7zSignature = 6"
  by (simp add: k7zSignature_def)

lemma fwrite_at_end:
  "pos f = length (content f) \<Longrightarrow>
   fwrite bs f = \<lparr> content = content f @ bs, pos = length (content f) + length bs \<rparr>"
  by (simp add: fwrite_def)

lemma fwrite_patch:
  "content f = a @ b @ c \<Longrightarrow> pos f = length a \<Longrightarrow> length bs = length b \<Longrightarrow>
   fwrite bs f = \<lparr> content = a @ bs @ c, pos = length a + length bs \<rparr>"
  by (simp add: fwrite_def)

lemma signature_header_ok_layout:
  "signature_header_ok CrcCalc (archive_layout CrcCalc pack header) (length pack) header
   \<and> take (length pack) (drop 32 (archive_layout CrcCalc pack header)) = pack"
proof -
  define S where "S = k7zSignature @ [0, 4]
      @ le32 (CrcCalc (le64 (of_nat (length pack)) @ le64 (of_nat (length header))
                       @ le32 (CrcCalc header)))
      @ le64 (of_nat (length pack)) @ le64 (of_nat (length header)) @ le32 (CrcCalc header)"
  have l: "archive_layout CrcCalc pack header = S @ pack @ header"
    by (simp add: archive_layout_def S_def Let_def)
  have n: "length S = 32" by (simp add: S_def)
  have d: "drop (32 + length pack) (S @ pack @ header) = header"
    "take (length pack) (drop 32 (S @ pack @ header)) = pack"
    "length (S @ pack @ header) = 32 + length pack + length header"
    using n by simp_all
  have s: "take 6 (S @ pack @ header) = [0x37, 0x7A, 0xBC, 0xAF, 0x27, 0x1C]"
    "(S @ pack @ header) ! 6 = 0" "(S @ pack @ header) ! 7 = 4"
    "take 8 (drop 12 (S @ pack @ header)) = le64 (of_nat (length pack))"
    "take 8 (drop 20 (S @ pack @ header)) = le64 (of_nat (length header))"
    "take 4 (drop 28 (S @ pack @ header)) = le32 (CrcCalc header)"
    "take 20 (drop 12 (S @ pack @ header))
       = le64 (of_nat (length pack)) @ le64 (of_nat (length header)) @ le32 (CrcCalc header)"
    "take 4 (drop 8 (S @ pack @ header))
       = le32 (CrcCalc (le64 (of_nat (length pack)) @ le64 (of_nat (length header))
                        @ le32 (CrcCalc header)))"
    by (simp_all add: S_def k7zSignature_def)
  show ?thesis
    unfolding l signature_header_ok_def using d s by simp
qed

text \<open>The writes of both writers, from the placeholders to the patched Signature Header.\<close>

lemma patched_archive:
  fixes off sz :: "64 word" and crc :: "32 word"
  assumes f0: "f0 = \<lparr> content = k7zSignature @ [0, 4] @ z4 @ z8 @ z8' @ z4' @ pack @ header,
                      pos = p0 \<rparr>"
    and len: "length z4 = 4" "length z8 = 8" "length z8' = 8" "length z4' = 4"
  shows "content (fwrite (le32 c) (fseek_set 8
            (fwrite (le32 crc) (fwrite (le64 sz) (fwrite (le64 off) (fseek_set 12 f0))))))
         = k7zSignature @ [0, 4] @ le32 c @ le64 off @ le64 sz @ le32 crc @ pack @ header"
proof -
  let ?rest = "pack @ header"
  have 1: "fwrite (le64 off) (fseek_set 12 f0)
             = \<lparr> content = (k7zSignature @ [0, 4] @ z4) @ le64 off @ (z8' @ z4' @ ?rest),
                 pos = 20 \<rparr>"
    using len by (subst fwrite_patch [where a = "k7zSignature @ [0, 4] @ z4" and b = z8
          and c = "z8' @ z4' @ ?rest"]) (simp_all add: f0 fseek_set_def)
  have 2: "fwrite (le64 sz) (fwrite (le64 off) (fseek_set 12 f0))
             = \<lparr> content = (k7zSignature @ [0, 4] @ z4 @ le64 off) @ le64 sz @ (z4' @ ?rest),
                 pos = 28 \<rparr>"
    unfolding 1 using len
    by (subst fwrite_patch [where a = "k7zSignature @ [0, 4] @ z4 @ le64 off" and b = z8'
          and c = "z4' @ ?rest"]) simp_all
  have 3: "fwrite (le32 crc) (fwrite (le64 sz) (fwrite (le64 off) (fseek_set 12 f0)))
             = \<lparr> content = (k7zSignature @ [0, 4] @ z4 @ le64 off @ le64 sz) @ le32 crc @ ?rest,
                 pos = 32 \<rparr>"
    unfolding 2 using len
    by (subst fwrite_patch [where a = "k7zSignature @ [0, 4] @ z4 @ le64 off @ le64 sz"
          and b = z4' and c = ?rest]) simp_all
  have 4: "fwrite (le32 c) (fseek_set 8
             (fwrite (le32 crc) (fwrite (le64 sz) (fwrite (le64 off) (fseek_set 12 f0)))))
             = \<lparr> content = (k7zSignature @ [0, 4]) @ le32 c
                            @ (le64 off @ le64 sz @ le32 crc @ ?rest),
                 pos = 12 \<rparr>"
    unfolding 3 using len
    by (subst fwrite_patch [where a = "k7zSignature @ [0, 4]" and b = z4
          and c = "le64 off @ le64 sz @ le32 crc @ ?rest"]) (simp_all add: fseek_set_def)
  show ?thesis unfolding 4 by simp
qed

lemma placeholders_written:
  "fwrite z4' (fwrite z8' (fwrite z8 (fwrite z4 (fwrite [0, 4] (fwrite k7zSignature fopen_wb)))))
     = \<lparr> content = k7zSignature @ [0, 4] @ z4 @ z8 @ z8' @ z4',
         pos = 8 + length z4 + length z8 + length z8' + length z4' \<rparr>"
  by (simp add: fwrite_def fopen_wb_def)

lemma start_positions:
  "ftell (fwrite [0, 4] (fwrite k7zSignature fopen_wb)) = 8"
  "ftell (fwrite z4 (fwrite [0, 4] (fwrite k7zSignature fopen_wb))) = 8 + length z4"
  by (simp_all add: ftell_def fwrite_def fopen_wb_def)

lemma finish_archive:
  fixes off sz :: "64 word"
  assumes f1: "f1 = \<lparr> content = k7zSignature @ [0, 4] @ z4 @ z8 @ z8' @ z4', pos = 32 \<rparr>"
    and len: "length z4 = 4" "length z8 = 8" "length z8' = 8" "length z4' = 4"
    and f2: "f2 = (if length pack > 0 then fwrite pack f1 else f1)"
  shows "content (fwrite (le32 c) (fseek_set 8
            (fwrite (le32 crc) (fwrite (le64 sz) (fwrite (le64 off)
               (fseek_set 12 (fwrite header f2)))))))
         = k7zSignature @ [0, 4] @ le32 c @ le64 off @ le64 sz @ le32 crc @ pack @ header"
    and "ftell f2 - ftell f1 = length pack"
proof -
  have f2': "f2 = \<lparr> content = k7zSignature @ [0, 4] @ z4 @ z8 @ z8' @ z4' @ pack,
                     pos = 32 + length pack \<rparr>"
    unfolding f2 f1 using len by (simp add: fwrite_at_end)
  have f3: "fwrite header f2
              = \<lparr> content = k7zSignature @ [0, 4] @ z4 @ z8 @ z8' @ z4' @ pack @ header,
                  pos = 32 + length pack + length header \<rparr>"
    unfolding f2' using len by (simp add: fwrite_at_end)
  show "content (fwrite (le32 c) (fseek_set 8
            (fwrite (le32 crc) (fwrite (le64 sz) (fwrite (le64 off)
               (fseek_set 12 (fwrite header f2)))))))
         = k7zSignature @ [0, 4] @ le32 c @ le64 off @ le64 sz @ le32 crc @ pack @ header"
    by (rule patched_archive [OF f3 len])
  show "ftell f2 - ftell f1 = length pack"
    by (simp add: f2' f1 ftell_def)
qed

lemma write_7z_archive_ok:
  assumes c: "compress_all_files CrcCalc Lzma2Enc builder = Inr (builder', pack, length pack)"
    and h: "length (header_block builder' (length pack)) \<le> 65536"
  shows "write_7z_archive CrcCalc Lzma2Enc builder
           = (SEVENZIP_OK, archive_layout CrcCalc pack (header_block builder' (length pack)))"
proof -
  let ?header = "header_block builder' (length pack)"
  define f1 where "f1 = fwrite (le32 0) (fwrite (le64 0) (fwrite (le64 0) (fwrite (le32 0)
                          (fwrite [0, 4] (fwrite k7zSignature fopen_wb)))))"
  have f1: "f1 = \<lparr> content = k7zSignature @ [0, 4] @ le32 0 @ le64 0 @ le64 0 @ le32 0, pos = 32 \<rparr>"
    unfolding f1_def by (simp add: placeholders_written)
  define f2 where "f2 = (if length pack > 0 then fwrite pack f1 else f1)"
  note fin = finish_archive [OF f1 _ _ _ _ f2_def, simplified]
  have "write_7z_archive CrcCalc Lzma2Enc builder
          = (SEVENZIP_OK,
             content (fwrite (le32 (CrcCalc (le64 (of_nat (ftell f2 - ftell f1))
                                  @ le64 (of_nat (length ?header)) @ le32 (CrcCalc ?header))))
               (fseek_set 8 (fwrite (le32 (CrcCalc ?header))
                 (fwrite (le64 (of_nat (length ?header)))
                   (fwrite (le64 (of_nat (ftell f2 - ftell f1)))
                      (fseek_set 12 (fwrite ?header f2))))))))"
    unfolding write_7z_archive_def Let_def c start_positions f1_def [symmetric]
    using h by (simp add: f2_def del: One_nat_def)
  also have "\<dots> = (SEVENZIP_OK, archive_layout CrcCalc pack ?header)"
    unfolding fin by (simp add: archive_layout_def Let_def)
  finally show ?thesis .
qed

lemma combine_files_length:
  "list_all wf_file fs \<Longrightarrow> length (fst (combine_files CrcCalc fs)) = total_input_size fs"
  by (induction fs) (auto simp: wf_file_def case_prod_unfold Let_def split: option.splits)

lemma compress_all_files_result:
  assumes "list_all wf_file (files builder)"
  shows "(\<exists>builder' pack. compress_all_files CrcCalc Lzma2Enc builder
                            = Inr (builder', pack, length pack))
         \<or> compress_all_files CrcCalc Lzma2Enc builder = Inl SEVENZIP_ERROR_COMPRESS"
  using combine_files_length [OF assms, of CrcCalc]
  by (auto simp: compress_all_files_def Let_def case_prod_unfold split: option.splits)

lemma write_7z_archive_compress_error:
  "compress_all_files CrcCalc Lzma2Enc builder = Inl e \<Longrightarrow>
   fst (write_7z_archive CrcCalc Lzma2Enc builder) = e"
  by (simp add: write_7z_archive_def Let_def)

lemma write_7z_archive_header_too_large:
  "compress_all_files CrcCalc Lzma2Enc builder = Inr (builder', pack, n) \<Longrightarrow>
   length (header_block builder' n) > 65536 \<Longrightarrow>
   fst (write_7z_archive CrcCalc Lzma2Enc builder) = SEVENZIP_ERROR_COMPRESS"
  by (simp add: write_7z_archive_def Let_def)

lemma write_7z_archive_finished:
  assumes ok: "write_7z_archive CrcCalc Lzma2Enc builder = (SEVENZIP_OK, out)"
    and wf: "list_all wf_file (files builder)"
  shows "\<exists>builder' pack.
           compress_all_files CrcCalc Lzma2Enc builder = Inr (builder', pack, length pack)
           \<and> out = archive_layout CrcCalc pack (header_block builder' (length pack))"
proof -
  from compress_all_files_result [OF wf, of CrcCalc Lzma2Enc]
  consider builder' pack where
      "compress_all_files CrcCalc Lzma2Enc builder = Inr (builder', pack, length pack)"
    | "compress_all_files CrcCalc Lzma2Enc builder = Inl SEVENZIP_ERROR_COMPRESS"
    by blast
  then show ?thesis
  proof cases
    case 2
    from write_7z_archive_compress_error [OF 2] ok show ?thesis by simp
  next
    case 1
    show ?thesis
    proof (cases "length (header_block builder' (length pack)) > 65536")
      case True
      from write_7z_archive_header_too_large [OF 1 True] ok show ?thesis by simp
    next
      case False
      then have "length (header_block builder' (length pack)) \<le> 65536" by simp
      from write_7z_archive_ok [OF 1 this] ok 1 show ?thesis by auto
    qed
  qed
qed

lemma copy_temp_data_take: "copy_temp_data temp_data remaining = take remaining temp_data"
proof (induction temp_data remaining rule: copy_temp_data.induct)
  case (1 temp_data remaining)
  show ?case
  proof (cases "remaining > 0")
    case False
    then show ?thesis by (subst copy_temp_data.simps) simp
  next
    case True
    let ?to_copy = "if remaining < 65536 then remaining else 65536"
    let ?block = "take ?to_copy temp_data"
    show ?thesis
    proof (cases "length ?block = 0")
      case e: True
      then have "temp_data = []" using True by (auto simp: min_def split: if_splits)
      then show ?thesis by (subst copy_temp_data.simps) simp
    next
      case ne: False
      have "copy_temp_data temp_data remaining
              = ?block @ copy_temp_data (drop (length ?block) temp_data) (remaining - length ?block)"
        using True ne by (subst copy_temp_data.simps) (simp add: Let_def)
      also have "\<dots> = ?block @ take (remaining - length ?block) (drop (length ?block) temp_data)"
        using "1.IH" [OF True refl refl ne] by simp
      also have "\<dots> = take remaining temp_data"
      proof -
        have "length ?block \<le> remaining" by (auto simp: min_def)
        then have "take remaining temp_data
                     = take (length ?block) temp_data
                       @ take (remaining - length ?block) (drop (length ?block) temp_data)"
          by (metis le_add_diff_inverse take_add)
        moreover have "take (length ?block) temp_data = ?block" by (simp add: min_def)
        ultimately show ?thesis by simp
      qed
      finally show ?thesis .
    qed
  qed
qed

lemma patched_archive_streaming:
  fixes off sz :: "64 word" and crc :: "32 word"
  assumes f0: "f0 = \<lparr> content = k7zSignature @ [0, 4] @ z4 @ le64 off @ z8' @ z4' @ pack @ header,
                      pos = p0 \<rparr>"
    and len: "length z4 = 4" "length z8' = 8" "length z4' = 4"
  shows "content (fwrite (le32 c) (fseek_set 8
            (fwrite (le32 crc) (fwrite (le64 sz) (fseek_set 20 f0)))))
         = k7zSignature @ [0, 4] @ le32 c @ le64 off @ le64 sz @ le32 crc @ pack @ header"
proof -
  let ?rest = "pack @ header"
  have 2: "fwrite (le64 sz) (fseek_set 20 f0)
             = \<lparr> content = (k7zSignature @ [0, 4] @ z4 @ le64 off) @ le64 sz @ (z4' @ ?rest),
                 pos = 28 \<rparr>"
    using len
    by (subst fwrite_patch [where a = "k7zSignature @ [0, 4] @ z4 @ le64 off" and b = z8'
          and c = "z4' @ ?rest"]) (simp_all add: f0 fseek_set_def)
  have 3: "fwrite (le32 crc) (fwrite (le64 sz) (fseek_set 20 f0))
             = \<lparr> content = (k7zSignature @ [0, 4] @ z4 @ le64 off @ le64 sz) @ le32 crc @ ?rest,
                 pos = 32 \<rparr>"
    unfolding 2 using len
    by (subst fwrite_patch [where a = "k7zSignature @ [0, 4] @ z4 @ le64 off @ le64 sz"
          and b = z4' and c = ?rest]) simp_all
  have 4: "fwrite (le32 c) (fseek_set 8 (fwrite (le32 crc) (fwrite (le64 sz) (fseek_set 20 f0))))
             = \<lparr> content = (k7zSignature @ [0, 4]) @ le32 c
                            @ (le64 off @ le64 sz @ le32 crc @ ?rest),
                 pos = 12 \<rparr>"
    unfolding 3 using len
    by (subst fwrite_patch [where a = "k7zSignature @ [0, 4]" and b = z4
          and c = "le64 off @ le64 sz @ le32 crc @ ?rest"]) (simp_all add: fseek_set_def)
  show ?thesis unfolding 4 by simp
qed

lemma streaming_write_7z_archive_layout:
  "streaming_write_7z_archive CrcCalc builder temp (length temp)
     = (SEVENZIP_OK, archive_layout CrcCalc temp (streaming_header builder (length temp)))"
proof -
  let ?header = "streaming_header builder (length temp)"
  let ?off = "of_nat (length temp) :: 64 word"
  define f1 where "f1 = fwrite (le32 0) (fwrite (le64 0) (fwrite (le64 ?off) (fwrite (le32 0)
                          (fwrite [0, 4] (fwrite k7zSignature fopen_wb)))))"
  have f1: "f1 = \<lparr> content = k7zSignature @ [0, 4] @ le32 0 @ le64 ?off @ le64 0 @ le32 0,
                    pos = 32 \<rparr>"
    unfolding f1_def by (simp add: placeholders_written)
  have f3: "fwrite ?header (fwrite temp f1)
              = \<lparr> content = k7zSignature @ [0, 4] @ le32 0 @ le64 ?off @ le64 0 @ le32 0
                              @ temp @ ?header,
                  pos = 32 + length temp + length ?header \<rparr>"
    unfolding f1 by (simp add: fwrite_at_end)
  have "streaming_write_7z_archive CrcCalc builder temp (length temp)
          = (SEVENZIP_OK,
             content (fwrite (le32 (CrcCalc (le64 ?off @ le64 (of_nat (length ?header))
                                             @ le32 (CrcCalc ?header))))
               (fseek_set 8 (fwrite (le32 (CrcCalc ?header))
                 (fwrite (le64 (of_nat (length ?header)))
                    (fseek_set 20 (fwrite ?header (fwrite temp f1))))))))"
    unfolding streaming_write_7z_archive_def Let_def start_positions copy_temp_data_take
      f1_def [symmetric]
    by (simp add: ftell_def fwrite_def fopen_wb_def del: One_nat_def)
  also have "\<dots> = (SEVENZIP_OK, archive_layout CrcCalc temp ?header)"
    by (subst patched_archive_streaming [OF f3]) (simp_all add: archive_layout_def Let_def)
  finally show ?thesis .
qed

lemma compress_file_list_no_ok:
  "compress_file_list CrcCalc read_file chunk_size fs = Inl e \<Longrightarrow> e \<noteq> SEVENZIP_OK"
  by (induction fs arbitrary: e)
    (auto simp: Let_def split: if_splits sum.splits option.splits prod.splits)

lemma compress_files_streaming_result:
  "(\<exists>e. compress_files_streaming CrcCalc read_file set_props_ok chunk_size builder = Inl e
        \<and> e \<noteq> SEVENZIP_OK)
   \<or> (\<exists>builder' temp.
         compress_files_streaming CrcCalc read_file set_props_ok chunk_size builder
           = Inr (builder', temp)
         \<and> s_packed_size builder' = length temp)"
  by (auto simp: compress_files_streaming_def split: sum.splits prod.splits
      dest: compress_file_list_no_ok)

text \<open>
  C2. When \<^verbatim>\<open>write_7z_archive\<close> has returned \<^verbatim>\<open>SEVENZIP_OK\<close>, the archive consists of the
  32-byte Signature Header, the packed stream and the Header Block. The Signature Header
  holds the magic bytes, the version bytes 0 and 4, in bytes 12..19 the size of the packed
  stream (the offset of the Header Block from the end of the Signature Header; the same
  number that the Header Block records as the pack size), in bytes 20..27 the length of
  the Header Block, in bytes 28..31 the CRC of the Header Block, and in bytes 8..11 the
  CRC of bytes 12..31, all little-endian. This holds for the writer of
  \<^verbatim>\<open>archive_create.c\<close>, whose entries hold the data read for them, and for the
  true-streaming writer run on the temporary file that its compression phase produced.
\<close>

theorem signature_header_of_finished_archive:
  "(write_7z_archive CrcCalc Lzma2Enc builder = (SEVENZIP_OK, out)
      \<and> list_all wf_file (files builder)
    \<longrightarrow> (\<exists>builder' pack.
           compress_all_files CrcCalc Lzma2Enc builder = Inr (builder', pack, length pack)
           \<and> take (length pack) (drop 32 out) = pack
           \<and> signature_header_ok CrcCalc out (length pack)
                 (header_block builder' (length pack))))
   \<and> (streaming_compress_and_write CrcCalc read_file set_props_ok chunk_size sbuilder
         = (SEVENZIP_OK, sout)
    \<longrightarrow> (\<exists>sbuilder' temp.
           compress_files_streaming CrcCalc read_file set_props_ok chunk_size sbuilder
             = Inr (sbuilder', temp)
           \<and> s_packed_size sbuilder' = length temp
           \<and> take (length temp) (drop 32 sout) = temp
           \<and> signature_header_ok CrcCalc sout (length temp)
                 (streaming_header sbuilder' (length temp))))"
proof (intro conjI impI)
  assume a: "write_7z_archive CrcCalc Lzma2Enc builder = (SEVENZIP_OK, out)
             \<and> list_all wf_file (files builder)"
  from write_7z_archive_finished [of CrcCalc Lzma2Enc builder out] a
  obtain builder' pack where
    c: "compress_all_files CrcCalc Lzma2Enc builder = Inr (builder', pack, length pack)"
    and o: "out = archive_layout CrcCalc pack (header_block builder' (length pack))"
    by blast
  from signature_header_ok_layout [of CrcCalc pack "header_block builder' (length pack)"] c o
  show "\<exists>builder' pack.
           compress_all_files CrcCalc Lzma2Enc builder = Inr (builder', pack, length pack)
           \<and> take (length pack) (drop 32 out) = pack
           \<and> signature_header_ok CrcCalc out (length pack)
                 (header_block builder' (length pack))"
    by blast
next
  assume a: "streaming_compress_and_write CrcCalc read_file set_props_ok chunk_size sbuilder
               = (SEVENZIP_OK, sout)"
  from compress_files_streaming_result [of CrcCalc read_file set_props_ok chunk_size sbuilder]
  consider e where
      "compress_files_streaming CrcCalc read_file set_props_ok chunk_size sbuilder = Inl e"
      "e \<noteq> SEVENZIP_OK"
    | sbuilder' temp where
      "compress_files_streaming CrcCalc read_file set_props_ok chunk_size sbuilder
         = Inr (sbuilder', temp)"
      "s_packed_size sbuilder' = length temp"
    by blast
  then show "\<exists>sbuilder' temp.
           compress_files_streaming CrcCalc read_file set_props_ok chunk_size sbuilder
             = Inr (sbuilder', temp)
           \<and> s_packed_size sbuilder' = length temp
           \<and> take (length temp) (drop 32 sout) = temp
           \<and> signature_header_ok CrcCalc sout (length temp)
                 (streaming_header sbuilder' (length temp))"
  proof cases
    case 1
    with a show ?thesis by (simp add: streaming_compress_and_write_def)
  next
    case 2
    with a have "sout = archive_layout CrcCalc temp (streaming_header sbuilder' (length temp))"
      by (simp add: streaming_compress_and_write_def streaming_write_7z_archive_layout)
    with signature_header_ok_layout [of CrcCalc temp "streaming_header sbuilder' (length temp)"] 2
    show ?thesis by blast
  qed
qed

lemma store_one_file_compress:
  "compress_all_files crc32 no_encoder store_one_file
     = Inr (store_one_file \<lparr> files := [(hd (files store_one_file)) \<lparr> f_crc := crc32 [0x61] \<rparr>] \<rparr>,
            [0x61], 1)"
  by (simp add: compress_all_files_def store_one_file_def Let_def)

lemma store_one_file_written:
  "fst (write_7z_archive crc32 no_encoder store_one_file) = SEVENZIP_OK"
proof -
  let ?b = "store_one_file \<lparr> files := [(hd (files store_one_file)) \<lparr> f_crc := crc32 [0x61] \<rparr>] \<rparr>"
  have c: "compress_all_files crc32 no_encoder store_one_file = Inr (?b, [0x61], length [0x61 :: byte])"
    by (simp add: store_one_file_compress)
  have "length (header_block ?b (length [0x61 :: byte])) \<le> 65536"
    by (simp add: header_block_def pack_info_def unpack_info_def coder_spec_def
        substreams_info_def substream_sizes_def files_info_def empty_stream_property_def
        names_property_def mtime_property_def attrib_property_def utf16le_name_def
        store_one_file_def WriteNumber_def)
  from write_7z_archive_ok [OF c this] show ?thesis by simp
qed

lemma streaming_one_file_written:
  "fst (streaming_compress_and_write crc32 disk_one_file True 65536 streaming_one_file)
     = SEVENZIP_OK"
  by (simp add: streaming_compress_and_write_def compress_files_streaming_def
      streaming_one_file_def disk_one_file_def Let_def streaming_write_7z_archive_def
      split: sum.splits prod.splits)

theorem signature_header_of_finished_archive_witness:
  "fst (write_7z_archive crc32 no_encoder store_one_file) = SEVENZIP_OK
   \<and> list_all wf_file (files store_one_file)
   \<and> (\<exists>builder'.
         compress_all_files crc32 no_encoder store_one_file = Inr (builder', [0x61], 1)
         \<and> signature_header_ok crc32 (snd (write_7z_archive crc32 no_encoder store_one_file)) 1
              (header_block builder' 1))
   \<and> fst (streaming_compress_and_write crc32 disk_one_file True 65536 streaming_one_file)
       = SEVENZIP_OK
   \<and> (\<exists>sbuilder' temp.
         compress_files_streaming crc32 disk_one_file True 65536 streaming_one_file
           = Inr (sbuilder', temp)
         \<and> signature_header_ok crc32
              (snd (streaming_compress_and_write crc32 disk_one_file True 65536
                      streaming_one_file))
              (length temp) (streaming_header sbuilder' (length temp)))"
proof -
  have wf: "list_all wf_file (files store_one_file)"
    by (simp add: store_one_file_def wf_file_def)
  have w: "write_7z_archive crc32 no_encoder store_one_file
             = (SEVENZIP_OK, snd (write_7z_archive crc32 no_encoder store_one_file))"
    using store_one_file_written by (metis prod.collapse)
  have s: "streaming_compress_and_write crc32 disk_one_file True 65536 streaming_one_file
             = (SEVENZIP_OK,
                snd (streaming_compress_and_write crc32 disk_one_file True 65536
                       streaming_one_file))"
    using streaming_one_file_written by (metis prod.collapse)
  from signature_header_of_finished_archive
    [of crc32 no_encoder store_one_file
      "snd (write_7z_archive crc32 no_encoder store_one_file)"
      disk_one_file True 65536 streaming_one_file
      "snd (streaming_compress_and_write crc32 disk_one_file True 65536 streaming_one_file)"]
    w s wf
  have 1: "\<exists>builder' pack.
           compress_all_files crc32 no_encoder store_one_file = Inr (builder', pack, length pack)
           \<and> take (length pack) (drop 32 (snd (write_7z_archive crc32 no_encoder store_one_file)))
               = pack
           \<and> signature_header_ok crc32 (snd (write_7z_archive crc32 no_encoder store_one_file))
                 (length pack) (header_block builder' (length pack))"
    and 2: "\<exists>sbuilder' temp.
         compress_files_streaming crc32 disk_one_file True 65536 streaming_one_file
           = Inr (sbuilder', temp)
         \<and> s_packed_size sbuilder' = length temp
         \<and> take (length temp) (drop 32 (snd (streaming_compress_and_write crc32 disk_one_file
                                                True 65536 streaming_one_file))) = temp
         \<and> signature_header_ok crc32
              (snd (streaming_compress_and_write crc32 disk_one_file True 65536
                      streaming_one_file))
              (length temp) (streaming_header sbuilder' (length temp))"
    by blast+
  from 1 store_one_file_compress
  have c1: "\<exists>builder'.
         compress_all_files crc32 no_encoder store_one_file = Inr (builder', [0x61], 1)
         \<and> signature_header_ok crc32 (snd (write_7z_archive crc32 no_encoder store_one_file)) 1
              (header_block builder' 1)"
    by auto
  from 2 have c2: "\<exists>sbuilder' temp.
         compress_files_streaming crc32 disk_one_file True 65536 streaming_one_file
           = Inr (sbuilder', temp)
         \<and> signature_header_ok crc32
              (snd (streaming_compress_and_write crc32 disk_one_file True 65536
                      streaming_one_file))
              (length temp) (streaming_header sbuilder' (length temp))"
    by blast
  show ?thesis using store_one_file_written streaming_one_file_written wf c1 c2 by blast
qed


subsection \<open>Split archives\<close>

lemma obliging_write [simp]: "obliging h \<Longrightarrow> \<not> write_fails h ctx n"
  by (simp add: obliging_def write_fails_def)

lemma obliging_open [simp]:
  "obliging h \<Longrightarrow> open_new_volume h ctx
     = Some (ctx \<lparr> mv_volumes := mv_volumes ctx
                @ [(get_volume_filename (mv_base_path ctx) (length (mv_volumes ctx)), fopen_wb)],
              current_volume_size := 0 \<rparr>)"
  by (simp add: obliging_def open_new_volume_def Let_def)

lemma write_across_volumes_step:
  assumes h: "obliging h"
    and m: "0 < max_volume_size ctx" and ok: "volumes_ok ctx" and d: "data \<noteq> []"
  shows "\<exists>ctx1 k. 0 < k \<and> k \<le> length data
           \<and> write_across_volumes h ctx data = write_across_volumes h ctx1 (drop k data)
           \<and> volumes_ok ctx1 \<and> written_bytes ctx1 = written_bytes ctx @ take k data
           \<and> max_volume_size ctx1 = max_volume_size ctx
           \<and> mv_base_path ctx1 = mv_base_path ctx
           \<and> total_packed_size ctx1 = total_packed_size ctx"
proof (cases "current_volume_size ctx \<ge> max_volume_size ctx")
  case True
  define vs where "vs = mv_volumes ctx"
  define k where "k = min (length data) (max_volume_size ctx)"
  define ctx1 where "ctx1 = ctx \<lparr> mv_volumes := vs
      @ [(get_volume_filename (mv_base_path ctx) (length vs), \<lparr> content = take k data, pos = k \<rparr>)],
      current_volume_size := k \<rparr>"
  have k: "0 < k" "k \<le> length data" "k \<le> max_volume_size ctx"
    using m d by (simp_all add: k_def)
  have full: "\<forall>v \<in> set vs. length (content (snd v)) = max_volume_size ctx"
  proof
    fix v assume "v \<in> set vs"
    moreover have "vs = butlast vs @ [last vs]" using ok by (simp add: volumes_ok_def vs_def)
    ultimately have "v \<in> set (butlast vs) \<or> v = last vs"
      by (metis Un_iff insert_iff list.set(2) set_append empty_iff list.set(1))
    then show "length (content (snd v)) = max_volume_size ctx"
      using ok True by (auto simp: volumes_ok_def vs_def)
  qed
  have step: "write_across_volumes h ctx data = write_across_volumes h ctx1 (drop k data)"
    apply (subst write_across_volumes.simps)
    using True d k h
    by (simp add: Let_def write_current_def fwrite_def fopen_wb_def
        ctx1_def vs_def k_def min_def)
  have ok1: "volumes_ok ctx1"
    using ok full k by (simp add: volumes_ok_def ctx1_def vs_def)
  have w: "written_bytes ctx1 = written_bytes ctx @ take k data"
    by (simp add: written_bytes_def ctx1_def vs_def)
  show ?thesis
    using k step ok1 w by (intro exI [of _ ctx1] exI [of _ k]) (simp add: ctx1_def)
next
  case False
  define vs where "vs = butlast (mv_volumes ctx)"
  define n where "n = fst (last (mv_volumes ctx))"
  define f where "f = snd (last (mv_volumes ctx))"
  define k where "k = min (length data) (max_volume_size ctx - current_volume_size ctx)"
  define ctx1 where "ctx1 = ctx \<lparr> mv_volumes := vs
      @ [(n, \<lparr> content = content f @ take k data, pos = length (content f) + k \<rparr>)],
      current_volume_size := current_volume_size ctx + k \<rparr>"
  have k: "0 < k" "k \<le> length data" "current_volume_size ctx + k \<le> max_volume_size ctx"
    using False d by (simp_all add: k_def)
  have ne: "mv_volumes ctx \<noteq> []" using ok by (simp add: volumes_ok_def)
  have vs: "mv_volumes ctx = vs @ [(n, f)]"
    using ne by (simp add: vs_def n_def f_def)
  have pf: "pos f = length (content f)" "length (content f) = current_volume_size ctx"
    using ok ne by (simp_all add: volumes_ok_def f_def)
  have step: "write_across_volumes h ctx data = write_across_volumes h ctx1 (drop k data)"
    apply (subst write_across_volumes.simps)
    using False d k ne pf h
    by (simp add: Let_def write_current_def fwrite_def ctx1_def vs_def [symmetric]
        n_def [symmetric] f_def [symmetric] k_def min_def)
  have ok1: "volumes_ok ctx1"
    using ok k pf unfolding volumes_ok_def vs by (simp add: ctx1_def)
  have w: "written_bytes ctx1 = written_bytes ctx @ take k data"
    unfolding written_bytes_def vs by (simp add: ctx1_def)
  show ?thesis
    using k step ok1 w by (intro exI [of _ ctx1] exI [of _ k]) (simp add: ctx1_def)
qed

lemma write_across_volumes_writes:
  assumes h: "obliging h" and m: "0 < max_volume_size ctx" and ok: "volumes_ok ctx"
  shows "\<exists>ctx'. write_across_volumes h ctx data = Some (True, ctx')
           \<and> volumes_ok ctx' \<and> written_bytes ctx' = written_bytes ctx @ data
           \<and> max_volume_size ctx' = max_volume_size ctx
           \<and> mv_base_path ctx' = mv_base_path ctx
           \<and> total_packed_size ctx' = total_packed_size ctx"
  using m ok
proof (induction "length data" arbitrary: ctx data rule: less_induct)
  case less
  show ?case
  proof (cases "data = []")
    case True
    then show ?thesis
      using less.prems by (subst write_across_volumes.simps) simp
  next
    case False
    from write_across_volumes_step [OF h less.prems False]
    obtain ctx1 k where k: "0 < k" "k \<le> length data"
      and s: "write_across_volumes h ctx data = write_across_volumes h ctx1 (drop k data)"
      and ok1: "volumes_ok ctx1" and w: "written_bytes ctx1 = written_bytes ctx @ take k data"
      and p: "max_volume_size ctx1 = max_volume_size ctx" "mv_base_path ctx1 = mv_base_path ctx"
        "total_packed_size ctx1 = total_packed_size ctx"
      by blast
    have "length (drop k data) < length data" using k False by simp
    from less.hyps [OF this _ ok1] less.prems(1) p
    obtain ctx' where "write_across_volumes h ctx1 (drop k data) = Some (True, ctx')"
      "volumes_ok ctx'" "written_bytes ctx' = written_bytes ctx1 @ drop k data"
      "max_volume_size ctx' = max_volume_size ctx1" "mv_base_path ctx' = mv_base_path ctx1"
      "total_packed_size ctx' = total_packed_size ctx1"
      by auto
    then show ?thesis using s w p by simp
  qed
qed

lemma store_pieces_writes:
  assumes h: "obliging h"
    and m: "0 < max_volume_size ctx" and ok: "volumes_ok ctx" and b: "0 < buf_size"
  shows "\<exists>ctx'. store_pieces h ctx data buf_size = Some (True, ctx')
           \<and> volumes_ok ctx' \<and> written_bytes ctx' = written_bytes ctx @ data
           \<and> max_volume_size ctx' = max_volume_size ctx
           \<and> mv_base_path ctx' = mv_base_path ctx
           \<and> total_packed_size ctx' = total_packed_size ctx"
  using m ok
proof (induction "length data" arbitrary: ctx data rule: less_induct)
  case less
  show ?case
  proof (cases "data = []")
    case True
    then show ?thesis using less.prems by (subst store_pieces.simps) simp
  next
    case False
    define k where "k = (if length data < buf_size then length data else buf_size)"
    have k: "0 < k" "k \<le> length data" using False b by (simp_all add: k_def)
    from write_across_volumes_writes [OF h less.prems, of "take k data"]
    obtain ctx1 where w: "write_across_volumes h ctx (take k data) = Some (True, ctx1)"
      and ok1: "volumes_ok ctx1" and wb: "written_bytes ctx1 = written_bytes ctx @ take k data"
      and p: "max_volume_size ctx1 = max_volume_size ctx" "mv_base_path ctx1 = mv_base_path ctx"
        "total_packed_size ctx1 = total_packed_size ctx"
      by blast
    have s: "store_pieces h ctx data buf_size = store_pieces h ctx1 (drop k data) buf_size"
      apply (subst store_pieces.simps)
      using False k w by (simp add: Let_def k_def [symmetric] min_absorb2)
    have "length (drop k data) < length data" using k by simp
    from less.hyps [OF this _ ok1] less.prems(1) p
    obtain ctx' where "store_pieces h ctx1 (drop k data) buf_size = Some (True, ctx')"
      "volumes_ok ctx'" "written_bytes ctx' = written_bytes ctx1 @ drop k data"
      "max_volume_size ctx' = max_volume_size ctx1" "mv_base_path ctx' = mv_base_path ctx1"
      "total_packed_size ctx' = total_packed_size ctx1"
      by auto
    then show ?thesis using s wb p by simp
  qed
qed

lemma length_stored_bytes:
  "(of_nat (length (stored_bytes d)) :: 64 word) = of_nat (length d)"
proof -
  have "unat (of_nat (length d) :: 64 word) \<le> length d"
    by (simp add: unat_of_nat)
  then have "length (stored_bytes d) = unat (of_nat (length d) :: 64 word)"
    by (simp add: stored_bytes_def)
  then show ?thesis by simp
qed

text \<open>A regular file that is mapped or can be opened is stored as it is.\<close>

lemma store_file_uncompressed_stores:
  assumes h: "obliging h" and m: "0 < max_volume_size ctx" and ok: "volumes_ok ctx"
    and r: "mapped \<or> c"
  shows "\<exists>ctx'. store_file_uncompressed CrcCalc h (Regular mo t c d) mapped
                    (of_nat (length d)) ctx
             = Some (True, ctx', CrcCalc (stored_bytes d), of_nat (length d))
           \<and> volumes_ok ctx' \<and> written_bytes ctx' = written_bytes ctx @ stored_bytes d
           \<and> max_volume_size ctx' = max_volume_size ctx
           \<and> mv_base_path ctx' = mv_base_path ctx
           \<and> total_packed_size ctx' = total_packed_size ctx"
proof -
  let ?fs = "of_nat (length d) :: 64 word"
  have bs: "0 < (if ?fs > 4 * 1024 * 1024 * 1024 then 64 * 1024 else STREAM_BUFFER_SIZE)"
    by (simp add: STREAM_BUFFER_SIZE_def)
  from write_across_volumes_writes [OF h m ok, of "stored_bytes d"]
  obtain c1 where c1: "write_across_volumes h ctx (stored_bytes d) = Some (True, c1)"
    "volumes_ok c1" "written_bytes c1 = written_bytes ctx @ stored_bytes d"
    "max_volume_size c1 = max_volume_size ctx" "mv_base_path c1 = mv_base_path ctx"
    "total_packed_size c1 = total_packed_size ctx"
    by blast
  from store_pieces_writes [OF h m ok bs, of "stored_bytes d"]
  obtain c2 where c2: "store_pieces h ctx (stored_bytes d)
       (if ?fs > 4 * 1024 * 1024 * 1024 then 64 * 1024 else STREAM_BUFFER_SIZE) = Some (True, c2)"
    "volumes_ok c2" "written_bytes c2 = written_bytes ctx @ stored_bytes d"
    "max_volume_size c2 = max_volume_size ctx" "mv_base_path c2 = mv_base_path ctx"
    "total_packed_size c2 = total_packed_size ctx"
    by blast
  show ?thesis
  proof (cases mapped)
    case True
    then show ?thesis
      using c1 by (simp add: stored_bytes_def [symmetric])
  next
    case False
    then have c using r by simp
    then show ?thesis
      using False c2 by (simp add: stored_bytes_def [symmetric] Let_def)
  qed
qed

lemma store_file_uncompressed_fails:
  "\<not> (\<exists>mo t d. node = Regular mo t True d)
   \<Longrightarrow> store_file_uncompressed CrcCalc h node False file_size ctx = Some (False, ctx, 0, 0)"
  by (cases node) auto

lemma compress_file_streaming_packs:
  assumes h: "obliging h" and m: "0 < max_volume_size ctx" and ok: "volumes_ok ctx"
    and p: "packed_entry CrcCalc Lzma2Enc False entry = Some (bytes, entry')"
    and nd: "\<not> e_is_dir entry"
  shows "\<exists>ctx' crc pb. compress_file_streaming CrcCalc Lzma2Enc h (e_source entry) ctx
             = Some (True, ctx', crc, of_nat (length bytes), pb)
           \<and> entry' = entry \<lparr> e_crc := crc, e_lzma2_prop := pb \<rparr>
           \<and> volumes_ok ctx' \<and> written_bytes ctx' = written_bytes ctx @ bytes
           \<and> max_volume_size ctx' = max_volume_size ctx
           \<and> mv_base_path ctx' = mv_base_path ctx
           \<and> total_packed_size ctx' = total_packed_size ctx"
proof (cases "e_source entry")
  case (Regular mo t c d)
  have c: c using p nd Regular by (auto simp: packed_entry_def split: if_splits)
  show ?thesis
  proof (cases "1024 * 1024 < (of_nat (length d) :: 64 word) \<and> \<not> mv_is_data_compressible d")
    case True
    then have "(of_nat (length d) :: 64 word) \<noteq> 0" by auto
    then have l: "length d > 0" by auto
    from p nd Regular c True have b: "bytes = stored_bytes d"
      "entry' = entry \<lparr> e_crc := CrcCalc (stored_bytes d), e_lzma2_prop := 0 \<rparr>"
      by (auto simp: packed_entry_def)
    from store_file_uncompressed_stores [OF h m ok, of True c CrcCalc mo t d]
    obtain ctx' where "store_file_uncompressed CrcCalc h (Regular mo t c d) True
                    (of_nat (length d)) ctx
             = Some (True, ctx', CrcCalc (stored_bytes d), of_nat (length d))"
      "volumes_ok ctx'" "written_bytes ctx' = written_bytes ctx @ stored_bytes d"
      "max_volume_size ctx' = max_volume_size ctx" "mv_base_path ctx' = mv_base_path ctx"
      "total_packed_size ctx' = total_packed_size ctx"
      by auto
    then show ?thesis
      using Regular c True l b
      by (simp add: Let_def length_stored_bytes del: store_file_uncompressed.simps)
  next
    case False
    from p nd Regular c False obtain pb where e: "Lzma2Enc d = Some (pb, bytes)"
      "entry' = entry \<lparr> e_crc := CrcCalc d, e_lzma2_prop := pb \<rparr>"
      by (auto simp: packed_entry_def split: option.splits)
    from write_across_volumes_writes [OF h m ok, of bytes]
    obtain c1 where "write_across_volumes h ctx bytes = Some (True, c1)"
      "volumes_ok c1" "written_bytes c1 = written_bytes ctx @ bytes"
      "max_volume_size c1 = max_volume_size ctx" "mv_base_path c1 = mv_base_path ctx"
      "total_packed_size c1 = total_packed_size ctx"
      by blast
    then show ?thesis
      using Regular c False e by (auto simp: Let_def)
  qed
qed (use p nd in \<open>auto simp: packed_entry_def\<close>)

lemma compress_file_streaming_fails:
  assumes p: "packed_entry CrcCalc Lzma2Enc False entry = None"
    and nd: "\<not> e_is_dir entry"
  shows "\<exists>ctx' crc ps pb. compress_file_streaming CrcCalc Lzma2Enc h (e_source entry) ctx
             = Some (False, ctx', crc, ps, pb)"
proof (cases "e_source entry")
  case (Regular mo t c d)
  show ?thesis
  proof (cases c)
    case True
    have n: "\<not> (1024 * 1024 < (of_nat (length d) :: 64 word) \<and> \<not> mv_is_data_compressible d)"
      "Lzma2Enc d = None"
      using p nd Regular True by (auto simp: packed_entry_def split: if_splits option.splits)
    then show ?thesis using Regular True by (auto simp: Let_def)
  next
    case False
    then show ?thesis using Regular by simp
  qed
qed simp_all

text \<open>One round of the loop over the entries, for an entry that is not a directory.\<close>

lemma pack_step:
  fixes entry :: MV_FileEntry
  defines "step CrcCalc Lzma2Enc h use_store_mode ctx \<equiv>
      (if use_store_mode
       then (case store_file_uncompressed CrcCalc h (e_source entry) False (e_size entry) ctx of
               None \<Rightarrow> None
             | Some (ok, ctx, crc, packed_size) \<Rightarrow> Some (ok, ctx, crc, packed_size, 0))
       else compress_file_streaming CrcCalc Lzma2Enc h (e_source entry) ctx)"
  assumes eo: "entry_ok entry" and nd: "\<not> e_is_dir entry"
  shows "packed_entry CrcCalc Lzma2Enc use_store_mode entry = None
         \<Longrightarrow> \<exists>ctx' crc ps pb. step CrcCalc Lzma2Enc h use_store_mode ctx
                                  = Some (False, ctx', crc, ps, pb)"
    and "obliging h \<Longrightarrow> 0 < max_volume_size ctx \<Longrightarrow> volumes_ok ctx
         \<Longrightarrow> packed_entry CrcCalc Lzma2Enc use_store_mode entry = Some (bytes, entry')
         \<Longrightarrow> \<exists>ctx' crc pb. step CrcCalc Lzma2Enc h use_store_mode ctx
                  = Some (True, ctx', crc, of_nat (length bytes), pb)
               \<and> entry' = entry \<lparr> e_crc := crc, e_lzma2_prop := pb \<rparr>
               \<and> volumes_ok ctx' \<and> written_bytes ctx' = written_bytes ctx @ bytes
               \<and> max_volume_size ctx' = max_volume_size ctx
               \<and> mv_base_path ctx' = mv_base_path ctx
               \<and> total_packed_size ctx' = total_packed_size ctx"
proof -
  assume p: "packed_entry CrcCalc Lzma2Enc use_store_mode entry = None"
  show "\<exists>ctx' crc ps pb. step CrcCalc Lzma2Enc h use_store_mode ctx
                                  = Some (False, ctx', crc, ps, pb)"
  proof (cases use_store_mode)
    case True
    have "\<not> (\<exists>mo t d. e_source entry = Regular mo t True d)"
      using p nd True by (auto simp: packed_entry_def)
    from store_file_uncompressed_fails [OF this, of CrcCalc h "e_size entry" ctx]
    show ?thesis using True by (simp add: step_def)
  next
    case False
    with compress_file_streaming_fails [of CrcCalc Lzma2Enc entry h ctx] p nd
    show ?thesis by (simp add: step_def)
  qed
next
  assume h: "obliging h" and m: "0 < max_volume_size ctx" and ok: "volumes_ok ctx"
    and p: "packed_entry CrcCalc Lzma2Enc use_store_mode entry = Some (bytes, entry')"
  show "\<exists>ctx' crc pb. step CrcCalc Lzma2Enc h use_store_mode ctx
                  = Some (True, ctx', crc, of_nat (length bytes), pb)
               \<and> entry' = entry \<lparr> e_crc := crc, e_lzma2_prop := pb \<rparr>
               \<and> volumes_ok ctx' \<and> written_bytes ctx' = written_bytes ctx @ bytes
               \<and> max_volume_size ctx' = max_volume_size ctx
               \<and> mv_base_path ctx' = mv_base_path ctx
               \<and> total_packed_size ctx' = total_packed_size ctx"
  proof (cases use_store_mode)
    case True
    from p nd True obtain mo t d where
      s: "e_source entry = Regular mo t True d" and b: "bytes = stored_bytes d"
        "entry' = entry \<lparr> e_crc := CrcCalc (stored_bytes d), e_lzma2_prop := 0 \<rparr>"
      by (auto simp: packed_entry_def split: fs_node.splits if_splits)
    have sz: "e_size entry = of_nat (length d)" using eo s by (simp add: entry_ok_def)
    from store_file_uncompressed_stores [OF h m ok, of False True CrcCalc mo t d]
    obtain ctx' where "store_file_uncompressed CrcCalc h (Regular mo t True d) False
                    (of_nat (length d)) ctx
             = Some (True, ctx', CrcCalc (stored_bytes d), of_nat (length d))"
      "volumes_ok ctx'" "written_bytes ctx' = written_bytes ctx @ stored_bytes d"
      "max_volume_size ctx' = max_volume_size ctx" "mv_base_path ctx' = mv_base_path ctx"
      "total_packed_size ctx' = total_packed_size ctx"
      by auto
    then show ?thesis
      using True s sz b
      by (simp add: step_def length_stored_bytes del: store_file_uncompressed.simps)
  next
    case False
    with compress_file_streaming_packs [OF h m ok _ nd, of CrcCalc Lzma2Enc bytes entry'] p
    show ?thesis by (simp add: step_def)
  qed
qed

lemma volumes_ok_total_packed_size [simp]:
  "volumes_ok (ctx \<lparr> total_packed_size := x \<rparr>) = volumes_ok ctx"
  by (simp add: volumes_ok_def)

lemma written_bytes_total_packed_size [simp]:
  "written_bytes (ctx \<lparr> total_packed_size := x \<rparr>) = written_bytes ctx"
  by (simp add: written_bytes_def)

text \<open>The loop over the entries stops with an error when an entry cannot be packed.\<close>

lemma process_files_fails:
  assumes h: "obliging h" and m: "0 < max_volume_size ctx" and ok: "volumes_ok ctx"
    and es: "list_all entry_ok fs"
    and p: "packed_stream CrcCalc Lzma2Enc use_store_mode fs = None"
  shows "\<exists>fs' ctx'. process_files CrcCalc Lzma2Enc h use_store_mode fs ctx
                        = Some (False, fs', ctx')"
  using m ok es p
proof (induction fs arbitrary: ctx)
  case Nil
  then show ?case by simp
next
  case (Cons entry rest)
  note m = Cons.prems(1) and ok = Cons.prems(2)
  have eo: "entry_ok entry" and er: "list_all entry_ok rest" using Cons.prems(3) by simp_all
  show ?case
  proof (cases "packed_entry CrcCalc Lzma2Enc use_store_mode entry")
    case None
    then have nd: "\<not> e_is_dir entry" by (auto simp: packed_entry_def)
    from pack_step(1) [OF eo nd None, of h ctx]
    show ?thesis using nd by auto
  next
    case (Some be)
    obtain bytes entry' where be: "be = (bytes, entry')" by (cases be)
    have pr: "packed_stream CrcCalc Lzma2Enc use_store_mode rest = None"
      using Cons.prems(4) Some be by (auto split: option.splits)
    show ?thesis
    proof (cases "e_is_dir entry")
      case True
      from Cons.IH [OF m ok er pr] show ?thesis using True by auto
    next
      case False
      from pack_step(2) [OF eo False h m ok Some [unfolded be]]
      obtain c1 crc pb where
        s: "(if use_store_mode
             then (case store_file_uncompressed CrcCalc h (e_source entry) False (e_size entry)
                          ctx of
                     None \<Rightarrow> None
                   | Some (ok, ctx, crc, packed_size) \<Rightarrow> Some (ok, ctx, crc, packed_size, 0))
             else compress_file_streaming CrcCalc Lzma2Enc h (e_source entry) ctx)
            = Some (True, c1, crc, of_nat (length bytes), pb)"
        and c1: "volumes_ok c1" "max_volume_size c1 = max_volume_size ctx"
        by blast
      define c2 where
        "c2 = c1 \<lparr> total_packed_size := total_packed_size c1 + of_nat (length bytes) \<rparr>"
      have m2: "0 < max_volume_size c2" and ok2: "volumes_ok c2"
        using m c1 by (simp_all add: c2_def)
      from Cons.IH [OF m2 ok2 er pr]
      obtain fs' ctx' where
        "process_files CrcCalc Lzma2Enc h use_store_mode rest c2 = Some (False, fs', ctx')"
        by blast
      then show ?thesis
        using False s by (simp add: c2_def [symmetric])
    qed
  qed
qed

text \<open>The loop over the entries writes the packed stream and records its CRCs.\<close>

lemma process_files_packs:
  assumes h: "obliging h" and m: "0 < max_volume_size ctx" and ok: "volumes_ok ctx"
    and es: "list_all entry_ok fs"
    and p: "packed_stream CrcCalc Lzma2Enc use_store_mode fs = Some (packed, fs')"
  shows "\<exists>ctx'. process_files CrcCalc Lzma2Enc h use_store_mode fs ctx = Some (True, fs', ctx')
           \<and> volumes_ok ctx' \<and> written_bytes ctx' = written_bytes ctx @ packed
           \<and> max_volume_size ctx' = max_volume_size ctx
           \<and> mv_base_path ctx' = mv_base_path ctx
           \<and> total_packed_size ctx' = total_packed_size ctx + of_nat (length packed)"
  using m ok es p
proof (induction fs arbitrary: ctx packed fs')
  case Nil
  then show ?case by auto
next
  case (Cons entry rest)
  note m = Cons.prems(1) and ok = Cons.prems(2)
  have eo: "entry_ok entry" and er: "list_all entry_ok rest" using Cons.prems(3) by simp_all
  from Cons.prems(4) obtain bytes entry' others rest' where
    pe: "packed_entry CrcCalc Lzma2Enc use_store_mode entry = Some (bytes, entry')"
    and pr: "packed_stream CrcCalc Lzma2Enc use_store_mode rest = Some (others, rest')"
    and eq: "packed = bytes @ others" "fs' = entry' # rest'"
    by (auto split: option.splits)
  show ?case
  proof (cases "e_is_dir entry")
    case True
    then have b: "bytes = []" "entry' = entry \<lparr> e_crc := 0, e_lzma2_prop := 0 \<rparr>"
      using pe by (auto simp: packed_entry_def)
    from Cons.IH [OF m ok er pr]
    show ?thesis using True b eq by auto
  next
    case False
    from pack_step(2) [OF eo False h m ok pe]
    obtain c1 crc pb where
      s: "(if use_store_mode
           then (case store_file_uncompressed CrcCalc h (e_source entry) False (e_size entry)
                        ctx of
                   None \<Rightarrow> None
                 | Some (ok, ctx, crc, packed_size) \<Rightarrow> Some (ok, ctx, crc, packed_size, 0))
           else compress_file_streaming CrcCalc Lzma2Enc h (e_source entry) ctx)
          = Some (True, c1, crc, of_nat (length bytes), pb)"
      and e': "entry' = entry \<lparr> e_crc := crc, e_lzma2_prop := pb \<rparr>"
      and c1: "volumes_ok c1" "written_bytes c1 = written_bytes ctx @ bytes"
        "max_volume_size c1 = max_volume_size ctx" "mv_base_path c1 = mv_base_path ctx"
        "total_packed_size c1 = total_packed_size ctx"
      by blast
    define c2 where
      "c2 = c1 \<lparr> total_packed_size := total_packed_size c1 + of_nat (length bytes) \<rparr>"
    have m2: "0 < max_volume_size c2" and ok2: "volumes_ok c2"
      using m c1 by (simp_all add: c2_def)
    from Cons.IH [OF m2 ok2 er pr]
    obtain ctx' where
      q: "process_files CrcCalc Lzma2Enc h use_store_mode rest c2 = Some (True, rest', ctx')"
        "volumes_ok ctx'" "written_bytes ctx' = written_bytes c2 @ others"
        "max_volume_size ctx' = max_volume_size c2" "mv_base_path ctx' = mv_base_path c2"
        "total_packed_size ctx' = total_packed_size c2 + of_nat (length others)"
      by blast
    have pf: "process_files CrcCalc Lzma2Enc h use_store_mode (entry # rest) ctx
                = Some (True, fs', ctx')"
      using False s q(1) by (simp add: c2_def [symmetric] e' eq)
    show ?thesis
      unfolding pf using q c1 eq by (simp add: c2_def)
  qed
qed

text \<open>The entries that the scan gathers have the size of their files.\<close>

lemma ADD_FILE_ENTRY_ok: "entry_ok (ADD_FILE_ENTRY p n m t c d)"
  by (simp add: entry_ok_def ADD_FILE_ENTRY_def)

lemma scan_directory_ok: "list_all entry_ok (snd (scan_directory cur b l es))"
  by (induction cur b l es rule: scan_directory.induct)
    (auto simp: case_prod_unfold Let_def ADD_FILE_ENTRY_ok split: fs_node.splits)

lemma scan_stack_ok: "list_all entry_ok fs \<Longrightarrow> list_all entry_ok (scan_stack b l stack fs)"
proof (induction b l stack fs rule: scan_stack.induct)
  case (2 b l cur m t can_open es stack fs)
  show ?case
  proof (cases can_open)
    case True
    obtain pushed added where sd: "scan_directory cur b l es = (pushed, added)"
      by (cases "scan_directory cur b l es")
    have "list_all entry_ok added" using scan_directory_ok [of cur b l es] sd by simp
    with "2.prems" have "list_all entry_ok (fs @ added)" by simp
    from "2.IH"(1) [OF True sd [symmetric] refl this] show ?thesis
      using True sd by (simp add: scan_stack.simps)
  next
    case False
    with 2 show ?thesis by (simp add: scan_stack.simps)
  qed
qed (simp_all add: scan_stack.simps)

lemma gather_entries_ok:
  "list_all entry_ok fs \<Longrightarrow> list_all entry_ok (gather_entries input_paths fs)"
  by (induction input_paths fs rule: gather_entries.induct)
    (simp_all add: ADD_FILE_ENTRY_ok scan_stack_ok)

lemma gather_files_count:
  "gather_files path node list = Some list'
     \<Longrightarrow> length (fl_paths list') = length (fl_paths list) + regular_files node"
  "gather_directory_files dir_path es list = Some list'
     \<Longrightarrow> length (fl_paths list') = length (fl_paths list) + regular_files_in es"
  by (induction path node list and dir_path es list arbitrary: list' and list'
      rule: gather_files_gather_directory_files.induct)
    (auto simp: file_list_add_def split: if_splits option.splits)

lemma gather_input_paths_count:
  "gather_input_paths input_paths list = Some list'
     \<Longrightarrow> length (fl_paths list')
           = length (fl_paths list) + sum_list (map (\<lambda>v. regular_files (snd v)) input_paths)"
proof (induction input_paths list arbitrary: list' rule: gather_input_paths.induct)
  case (2 path node rest list)
  from "2.prems" obtain l1 where g: "gather_files path node list = Some l1"
    and r: "gather_input_paths rest l1 = Some list'"
    by (auto split: option.splits)
  from gather_files_count(1) [OF g] "2.IH" [OF g r] show ?case by simp
qed simp

lemma scan_directory_count:
  "length (snd (scan_directory cur b l es))
     + sum_list (map (\<lambda>v. folder_files (snd v)) (fst (scan_directory cur b l es)))
   = regular_files_in es"
  by (induction cur b l es rule: scan_directory.induct)
    (auto simp: case_prod_unfold Let_def folder_files_def split: fs_node.splits)

lemma scan_stack_count:
  "length (scan_stack b l stack fs)
     = length fs + sum_list (map (\<lambda>v. folder_files (snd v)) stack)"
proof (induction b l stack fs rule: scan_stack.induct)
  case (2 b l cur m t can_open es stack fs)
  show ?case
  proof (cases can_open)
    case True
    obtain pushed added where sd: "scan_directory cur b l es = (pushed, added)"
      by (cases "scan_directory cur b l es")
    from scan_directory_count [of cur b l es] sd
    have c: "length added + sum_list (map (\<lambda>v. folder_files (snd v)) pushed)
               = regular_files_in es"
      by simp
    have r: "sum_list (map (\<lambda>v. folder_files (snd v)) (rev pushed))
               = sum_list (map (\<lambda>v. folder_files (snd v)) pushed)"
      by (simp add: rev_map [symmetric])
    from "2.IH"(1) [OF True sd [symmetric] refl] show ?thesis
      using True sd c r by (simp add: scan_stack.simps folder_files_def)
  next
    case False
    with 2 show ?thesis by (simp add: scan_stack.simps folder_files_def)
  qed
qed (simp_all add: scan_stack.simps folder_files_def)

lemma gather_entries_count:
  "length (gather_entries input_paths fs)
     = length fs + sum_list (map (\<lambda>v. regular_files (snd v)) input_paths)"
  by (induction input_paths fs rule: gather_entries.induct)
    (simp_all add: scan_stack_count folder_files_def)

text \<open>The two scans find the same number of regular files.\<close>

lemma gather_entries_length:
  assumes "gather_input_paths input_paths file_list_init = Some list"
  shows "length (gather_entries input_paths []) = length (fl_paths list)"
  using gather_input_paths_count [OF assms] gather_entries_count [of input_paths "[]"]
  by (simp add: file_list_init_def)

text \<open>The first volume once the place of the Signature Header is written.\<close>

lemma first_volume_ok:
  fixes base :: string and n :: nat
  defines "ctx \<equiv> \<lparr> mv_volumes = [(get_volume_filename base 0,
                              \<lparr> content = k7zSignature @ [0, 4] @ replicate 24 0, pos = 32 \<rparr>)],
              current_volume_size = 32, max_volume_size = n,
              mv_base_path = base, total_packed_size = 0 \<rparr>"
  assumes "32 \<le> n"
  shows "volumes_ok ctx" and "written_bytes ctx = k7zSignature @ [0, 4] @ replicate 24 0"
  using assms by (simp_all add: volumes_ok_def written_bytes_def)

text \<open>Writing the start header into the first volume.\<close>

lemma patch_first_volume:
  fixes a b :: "byte list"
  assumes ok: "volumes_ok ctx" and m: "32 \<le> max_volume_size ctx"
    and w: "written_bytes ctx = k7zSignature @ [0, 4] @ z @ rest" and z: "length z = 24"
    and a: "length a = 4" and b: "length b = 20"
  defines "first_vol \<equiv> fwrite b (fwrite a (fseek_set 8 (snd (mv_volumes ctx ! 0))))"
  defines "ctx' \<equiv> ctx \<lparr> mv_volumes := (mv_volumes ctx) [0 := (fst (mv_volumes ctx ! 0), first_vol)] \<rparr>"
  shows "concat (map snd (volume_files ctx')) = k7zSignature @ [0, 4] @ a @ b @ rest"
    and "cut_into_volumes (mv_base_path ctx) (max_volume_size ctx) (volume_files ctx')"
proof -
  obtain v0 vs where vs: "mv_volumes ctx = v0 # vs"
    using ok by (cases "mv_volumes ctx") (simp_all add: volumes_ok_def)
  define c0 where "c0 = content (snd v0)"
  define others where "others = concat (map (\<lambda>v. content (snd v)) vs)"
  have wr: "c0 @ others = k7zSignature @ [0, 4] @ z @ rest"
    using w by (simp add: written_bytes_def vs c0_def others_def)
  have l0: "32 \<le> length c0"
  proof (cases vs)
    case Nil
    then have "c0 = k7zSignature @ [0, 4] @ z @ rest" using wr by (simp add: others_def)
    then show ?thesis using z by simp
  next
    case (Cons v vs')
    then have "v0 \<in> set (butlast (mv_volumes ctx))" by (simp add: vs)
    then show ?thesis using ok m by (simp add: volumes_ok_def c0_def)
  qed
  have "take 32 (c0 @ others) = take 32 (k7zSignature @ [0, 4] @ z @ rest)" using wr by simp
  then have t32: "take 32 c0 = k7zSignature @ [0, 4] @ z" using l0 z by simp
  have "take 8 (take 32 c0) = take 8 (k7zSignature @ [0, 4] @ z)" using t32 by simp
  then have t8: "take 8 c0 = k7zSignature @ [0, 4]" by (simp add: min_def)
  have "drop 32 (c0 @ others) = drop 32 (k7zSignature @ [0, 4] @ z @ rest)" using wr by simp
  then have d32: "drop 32 c0 @ others = rest" using l0 z by simp
  have fv: "content first_vol = take 8 c0 @ a @ b @ drop 32 c0"
    using l0 a b
    by (simp add: first_vol_def vs fwrite_def fseek_set_def c0_def [symmetric] min_def)
  have len: "length (content first_vol) = length c0"
    using l0 a b by (simp add: fv)
  have vf: "volume_files ctx' = (fst v0, content first_vol) # map (\<lambda>v. (fst v, content (snd v))) vs"
    by (simp add: volume_files_def ctx'_def vs)
  have "concat (map snd (volume_files ctx')) = content first_vol @ others"
    by (simp add: vf others_def comp_def)
  also have "\<dots> = k7zSignature @ [0, 4] @ a @ b @ rest"
    using d32 by (simp add: fv t8)
  finally show "concat (map snd (volume_files ctx')) = k7zSignature @ [0, 4] @ a @ b @ rest" .
  have names: "map fst (volume_files ctx') = map fst (mv_volumes ctx)"
    by (simp add: vf vs comp_def)
  have lens: "map (\<lambda>v. length (snd v)) (volume_files ctx')
                = map (\<lambda>v. length (content (snd v))) (mv_volumes ctx)"
    by (simp add: vf vs comp_def len c0_def)
  have n: "length (volume_files ctx') = length (mv_volumes ctx)" by (simp add: vf vs)
  have bl: "map (\<lambda>v. length (snd v)) (butlast (volume_files ctx'))
                = map (\<lambda>v. length (content (snd v))) (butlast (mv_volumes ctx))"
    using lens by (simp add: map_butlast)
  have "\<forall>x \<in> set (map (\<lambda>v. length (content (snd v))) (butlast (mv_volumes ctx))).
          x = max_volume_size ctx"
    using ok by (simp add: volumes_ok_def)
  then have "\<forall>x \<in> set (map (\<lambda>v. length (snd v)) (butlast (volume_files ctx'))).
          x = max_volume_size ctx"
    unfolding bl .
  then have full: "\<forall>v \<in> set (butlast (volume_files ctx')). length (snd v) = max_volume_size ctx"
    by simp
  have ne: "volume_files ctx' \<noteq> []" by (simp add: vf)
  have "length (snd (last (volume_files ctx')))
          = last (map (\<lambda>v. length (snd v)) (volume_files ctx'))"
    using ne by (simp add: last_map)
  also have "\<dots> = length (content (snd (last (mv_volumes ctx))))"
    unfolding lens using vs by (simp add: last_map)
  finally have ll: "length (snd (last (volume_files ctx'))) = current_volume_size ctx"
    using ok by (simp add: volumes_ok_def)
  show "cut_into_volumes (mv_base_path ctx) (max_volume_size ctx) (volume_files ctx')"
    unfolding cut_into_volumes_def
    using ne names n full ll ok by (simp add: volumes_ok_def)
qed

text \<open>
  The multi-volume writer on a host that creates every volume and completes every write,
  for volumes of at least 32 bytes and at least one gathered file: once the place of the
  Signature Header is written, the rest of the run.
\<close>

lemma multivolume_run:
  assumes h: "obliging h" and nz: "split_size \<noteq> 0"
    and ne: "gather_entries input_paths [] \<noteq> []"
  shows "sevenzip_create_multivolume_7z_complete CrcCalc Lzma2Enc h archive_path
               input_paths level split_size
         = (case process_files CrcCalc Lzma2Enc h (level = SEVENZIP_LEVEL_STORE)
                  (gather_entries input_paths [])
                  \<lparr> mv_volumes = [(get_volume_filename (take 1023 archive_path) 0,
                        \<lparr> content = k7zSignature @ [0, 4] @ replicate 24 0, pos = 32 \<rparr>)],
                    current_volume_size = 32, max_volume_size = unat split_size,
                    mv_base_path = take 1023 archive_path, total_packed_size = 0 \<rparr> of
              None \<Rightarrow> None
            | Some (ok, entries, ctx) \<Rightarrow>
                if \<not> ok then Some (SEVENZIP_ERROR_COMPRESS, volume_files ctx)
                else
                  (case build_7z_header entries (total_packed_size ctx) of
                     None \<Rightarrow> None
                   | Some header \<Rightarrow>
                       (case write_across_volumes h ctx header of
                          None \<Rightarrow> None
                        | Some (written, ctx') \<Rightarrow>
                            if \<not> written then Some (SEVENZIP_ERROR_COMPRESS, volume_files ctx')
                            else
                              Some (SEVENZIP_OK,
                                volume_files (ctx' \<lparr> mv_volumes := (mv_volumes ctx')
                                  [0 := (fst (mv_volumes ctx' ! 0),
                                     fwrite (le64 (total_packed_size ctx')
                                          @ le64 (of_nat (length header))
                                          @ le32 (CrcCalc header))
                                      (fwrite (le32 (CrcCalc (le64 (total_packed_size ctx')
                                          @ le64 (of_nat (length header))
                                          @ le32 (CrcCalc header))))
                                         (fseek_set 8 (snd (mv_volumes ctx' ! 0)))))] \<rparr>)))))"
proof -
  have w: "fwrite bytes \<lparr> content = c, pos = length c \<rparr>
             = \<lparr> content = c @ bytes, pos = length c + length bytes \<rparr>" for bytes c
    by (simp add: fwrite_def)
  have w0: "fwrite bytes fopen_wb = \<lparr> content = bytes, pos = length bytes \<rparr>" for bytes
    by (simp add: fwrite_def fopen_wb_def)
  have w1: "fwrite [0, 4] \<lparr> content = k7zSignature, pos = 6 \<rparr>
             = \<lparr> content = k7zSignature @ [0, 4], pos = 8 \<rparr>"
    using w [of "[0, 4]" k7zSignature] by simp
  have w2: "fwrite (replicate 24 0) \<lparr> content = k7zSignature @ [0, 4], pos = 8 \<rparr>
             = \<lparr> content = k7zSignature @ [0, 4] @ replicate 24 0, pos = 32 \<rparr>"
    using w [of "replicate 24 0" "k7zSignature @ [0, 4]"] by simp
  show ?thesis
    unfolding sevenzip_create_multivolume_7z_complete_def Let_def
    using h nz ne
    by (simp add: write_counted_def write_current_def w0 w1 w2 ftell_def
        cong: option.case_cong prod.case_cong if_cong)
qed

text \<open>The multi-volume writer: what it returns and what its volumes hold.\<close>

lemma multivolume_archive:
  assumes h: "obliging h" and s: "32 \<le> unat split_size"
    and ne: "gather_entries input_paths [] \<noteq> []"
  shows "packed_stream CrcCalc Lzma2Enc (level = SEVENZIP_LEVEL_STORE)
             (gather_entries input_paths []) = None
         \<Longrightarrow> \<exists>vols. sevenzip_create_multivolume_7z_complete CrcCalc Lzma2Enc h archive_path
                        input_paths level split_size = Some (SEVENZIP_ERROR_COMPRESS, vols)"
    and "packed_stream CrcCalc Lzma2Enc (level = SEVENZIP_LEVEL_STORE)
             (gather_entries input_paths []) = Some (packed, entries)
         \<Longrightarrow> length (header_bytes entries (of_nat (length packed))) \<le> header_capacity
         \<Longrightarrow> \<exists>vols. sevenzip_create_multivolume_7z_complete CrcCalc Lzma2Enc h archive_path
                        input_paths level split_size = Some (SEVENZIP_OK, vols)
                  \<and> cut_into_volumes (take 1023 archive_path) (unat split_size) vols
                  \<and> concat (map snd vols)
                      = archive_layout CrcCalc packed
                          (header_bytes entries (of_nat (length packed)))"
    and "packed_stream CrcCalc Lzma2Enc (level = SEVENZIP_LEVEL_STORE)
             (gather_entries input_paths []) = Some (packed, entries)
         \<Longrightarrow> header_capacity < length (header_bytes entries (of_nat (length packed)))
         \<Longrightarrow> sevenzip_create_multivolume_7z_complete CrcCalc Lzma2Enc h archive_path
                        input_paths level split_size = None"
proof -
  define es where "es = gather_entries input_paths []"
  define ctx0 where "ctx0 = \<lparr> mv_volumes = [(get_volume_filename (take 1023 archive_path) 0,
                            \<lparr> content = k7zSignature @ [0, 4] @ replicate 24 0, pos = 32 \<rparr>)],
            current_volume_size = 32, max_volume_size = unat split_size,
            mv_base_path = take 1023 archive_path, total_packed_size = 0 \<rparr>"
  have nz: "split_size \<noteq> 0" using s by auto
  have ok0: "volumes_ok ctx0" and w0: "written_bytes ctx0 = k7zSignature @ [0, 4] @ replicate 24 0"
    unfolding ctx0_def using first_volume_ok [OF s] by simp_all
  have m0: "0 < max_volume_size ctx0" using s by (simp add: ctx0_def)
  have eo: "list_all entry_ok es" unfolding es_def by (rule gather_entries_ok) simp
  note run = multivolume_run [OF h nz ne, of CrcCalc Lzma2Enc archive_path level,
      folded es_def ctx0_def]
  {
    assume "packed_stream CrcCalc Lzma2Enc (level = SEVENZIP_LEVEL_STORE)
             (gather_entries input_paths []) = None"
    then have "packed_stream CrcCalc Lzma2Enc (level = SEVENZIP_LEVEL_STORE) es = None"
      by (simp add: es_def)
    from process_files_fails [OF h m0 ok0 eo this]
    obtain fs' c1 where
      "process_files CrcCalc Lzma2Enc h (level = SEVENZIP_LEVEL_STORE) es ctx0
         = Some (False, fs', c1)"
      by blast
    then show "\<exists>vols. sevenzip_create_multivolume_7z_complete CrcCalc Lzma2Enc h archive_path
                        input_paths level split_size = Some (SEVENZIP_ERROR_COMPRESS, vols)"
      unfolding run by simp
  }
  {
    assume "packed_stream CrcCalc Lzma2Enc (level = SEVENZIP_LEVEL_STORE)
             (gather_entries input_paths []) = Some (packed, entries)"
    then have ps: "packed_stream CrcCalc Lzma2Enc (level = SEVENZIP_LEVEL_STORE) es
                     = Some (packed, entries)"
      by (simp add: es_def)
    from process_files_packs [OF h m0 ok0 eo ps]
    obtain c1 where
      p: "process_files CrcCalc Lzma2Enc h (level = SEVENZIP_LEVEL_STORE) es ctx0
            = Some (True, entries, c1)"
      and q: "volumes_ok c1" "written_bytes c1 = written_bytes ctx0 @ packed"
        "max_volume_size c1 = max_volume_size ctx0" "mv_base_path c1 = mv_base_path ctx0"
        "total_packed_size c1 = total_packed_size ctx0 + of_nat (length packed)"
      by blast
    have t1: "total_packed_size c1 = of_nat (length packed)"
      using q(5) by (simp add: ctx0_def)
    define header where "header = header_bytes entries (of_nat (length packed))"
    {
      assume "header_capacity < length (header_bytes entries (of_nat (length packed)))"
      then have "build_7z_header entries (total_packed_size c1) = None"
        by (simp add: build_7z_header_def t1)
      then show "sevenzip_create_multivolume_7z_complete CrcCalc Lzma2Enc h archive_path
                        input_paths level split_size = None"
        unfolding run p by simp
    }
    {
      assume "length (header_bytes entries (of_nat (length packed))) \<le> header_capacity"
      then have b: "build_7z_header entries (total_packed_size c1) = Some header"
        by (simp add: build_7z_header_def t1 header_def)
      have m1: "0 < max_volume_size c1" using q m0 by simp
      from write_across_volumes_writes [OF h m1 q(1), of header]
      obtain c2 where
        wa: "write_across_volumes h c1 header = Some (True, c2)"
        and q2: "volumes_ok c2" "written_bytes c2 = written_bytes c1 @ header"
          "max_volume_size c2 = max_volume_size c1" "mv_base_path c2 = mv_base_path c1"
          "total_packed_size c2 = total_packed_size c1"
        by blast
      define shb where "shb = le64 (total_packed_size c2) @ le64 (of_nat (length header))
                                @ le32 (CrcCalc header)"
      define c3 where "c3 = c2 \<lparr> mv_volumes := (mv_volumes c2)
                           [0 := (fst (mv_volumes c2 ! 0),
                              fwrite shb (fwrite (le32 (CrcCalc shb))
                                  (fseek_set 8 (snd (mv_volumes c2 ! 0)))))] \<rparr>"
      have res: "sevenzip_create_multivolume_7z_complete CrcCalc Lzma2Enc h archive_path
               input_paths level split_size = Some (SEVENZIP_OK, volume_files c3)"
        unfolding run p using b wa
        by (simp add: shb_def [symmetric] c3_def [symmetric])
      have m2: "32 \<le> max_volume_size c2" using q q2 s by (simp add: ctx0_def)
      have w2: "written_bytes c2 = k7zSignature @ [0, 4] @ replicate 24 0 @ (packed @ header)"
        using q2 q(2) w0 by simp
      note pf = patch_first_volume [OF q2(1) m2 w2, of "le32 (CrcCalc shb)" shb,
          folded c3_def]
      have "length (replicate 24 (0 :: byte)) = 24" "length (le32 (CrcCalc shb)) = 4"
        "length shb = 20"
        by (simp_all add: shb_def)
      note pf = pf [OF this]
      have cat: "concat (map snd (volume_files c3)) = archive_layout CrcCalc packed header"
        unfolding pf(1)
        by (simp add: archive_layout_def Let_def shb_def q2 t1)
      have cut: "cut_into_volumes (take 1023 archive_path) (unat split_size) (volume_files c3)"
        using pf(2) q q2 by (simp add: ctx0_def)
      show "\<exists>vols. sevenzip_create_multivolume_7z_complete CrcCalc Lzma2Enc h archive_path
                        input_paths level split_size = Some (SEVENZIP_OK, vols)
                  \<and> cut_into_volumes (take 1023 archive_path) (unat split_size) vols
                  \<and> concat (map snd vols)
                      = archive_layout CrcCalc packed
                          (header_bytes entries (of_nat (length packed)))"
        unfolding res using cat cut by (simp add: header_def)
    }
  }
qed

text \<open>
  C6, as amended. With a split size other than 0, creation returns
  \<^verbatim>\<open>SEVENZIP_ERROR_INVALID_PARAM\<close> and writes nothing when the scan of the input paths fails
  or finds no regular file. When it finds regular files and they total at most \<open>split_size\<close>
  bytes, creation with that \<open>split_size\<close> does what creation with \<open>split_size = 0\<close> does:
  it writes the one archive file of \<^verbatim>\<open>sevenzip_create_7z\<close>. When they total more,
  \<open>split_size\<close> is at least 32 and the host creates every volume and completes every write, then
  creation returns \<^verbatim>\<open>SEVENZIP_ERROR_COMPRESS\<close> when a gathered file cannot be opened or the
  encoder fails, and otherwise, when the header fits the buffer of 256 KiB, it returns
  \<^verbatim>\<open>SEVENZIP_OK\<close> and has written the volumes \<open>base.001\<close>, \<open>base.002\<close>, ... (\<open>base\<close> being
  the first 1023 bytes of the archive path), each of \<open>split_size\<close> bytes but the last, whose
  concatenation in that order is one archive: the Signature Header, the packed stream of
  the gathered files and the header of \<^verbatim>\<open>build_7z_header\<close> for these files with their CRCs.
\<close>

theorem split_archive_is_cut_into_volumes:
  "(split_size \<noteq> 0 \<and> gather_input_paths input_paths file_list_init = None
    \<longrightarrow> sevenzip_create_7z_streaming CrcCalc Lzma2Enc Lzma2EncMV h prop_byte archive_path
          input_paths level split_size
        = Some (SEVENZIP_ERROR_INVALID_PARAM, []))
   \<and> (split_size \<noteq> 0 \<and> gather_input_paths input_paths file_list_init = Some list
      \<and> fl_paths list = []
    \<longrightarrow> sevenzip_create_7z_streaming CrcCalc Lzma2Enc Lzma2EncMV h prop_byte archive_path
          input_paths level split_size
        = Some (SEVENZIP_ERROR_INVALID_PARAM, []))
   \<and> (gather_input_paths input_paths file_list_init = Some list \<and> fl_paths list \<noteq> []
      \<and> fl_total_size list \<le> split_size
    \<longrightarrow> sevenzip_create_7z_streaming CrcCalc Lzma2Enc Lzma2EncMV h prop_byte archive_path
          input_paths level split_size
        = sevenzip_create_7z_streaming CrcCalc Lzma2Enc Lzma2EncMV h prop_byte archive_path
            input_paths level 0)
   \<and> (gather_input_paths input_paths file_list_init = Some list \<and> fl_paths list \<noteq> []
      \<and> split_size < fl_total_size list \<and> 32 \<le> unat split_size \<and> obliging h
    \<longrightarrow> (packed_stream CrcCalc Lzma2EncMV (level = SEVENZIP_LEVEL_STORE)
             (gather_entries input_paths []) = None
          \<longrightarrow> (\<exists>vols. sevenzip_create_7z_streaming CrcCalc Lzma2Enc Lzma2EncMV h prop_byte
                        archive_path input_paths level split_size
                      = Some (SEVENZIP_ERROR_COMPRESS, vols)))
        \<and> (\<forall>packed entries.
              packed_stream CrcCalc Lzma2EncMV (level = SEVENZIP_LEVEL_STORE)
                  (gather_entries input_paths []) = Some (packed, entries)
              \<and> length (header_bytes entries (of_nat (length packed))) \<le> header_capacity
            \<longrightarrow> (\<exists>vols. sevenzip_create_7z_streaming CrcCalc Lzma2Enc Lzma2EncMV h prop_byte
                          archive_path input_paths level split_size
                        = Some (SEVENZIP_OK, vols)
                      \<and> cut_into_volumes (take 1023 archive_path) (unat split_size) vols
                      \<and> concat (map snd vols)
                          = archive_layout CrcCalc packed
                              (header_bytes entries (of_nat (length packed))))))"
proof (intro conjI impI allI)
  assume "split_size \<noteq> 0 \<and> gather_input_paths input_paths file_list_init = None"
  then show "sevenzip_create_7z_streaming CrcCalc Lzma2Enc Lzma2EncMV h prop_byte archive_path
          input_paths level split_size
        = Some (SEVENZIP_ERROR_INVALID_PARAM, [])"
    by (simp add: sevenzip_create_7z_streaming_def)
next
  assume "split_size \<noteq> 0 \<and> gather_input_paths input_paths file_list_init = Some list
      \<and> fl_paths list = []"
  then show "sevenzip_create_7z_streaming CrcCalc Lzma2Enc Lzma2EncMV h prop_byte archive_path
          input_paths level split_size
        = Some (SEVENZIP_ERROR_INVALID_PARAM, [])"
    by (simp add: sevenzip_create_7z_streaming_def)
next
  assume "gather_input_paths input_paths file_list_init = Some list \<and> fl_paths list \<noteq> []
      \<and> fl_total_size list \<le> split_size"
  then show "sevenzip_create_7z_streaming CrcCalc Lzma2Enc Lzma2EncMV h prop_byte archive_path
          input_paths level split_size
        = sevenzip_create_7z_streaming CrcCalc Lzma2Enc Lzma2EncMV h prop_byte archive_path
            input_paths level 0"
    by (simp add: sevenzip_create_7z_streaming_def)
next
  assume a: "gather_input_paths input_paths file_list_init = Some list \<and> fl_paths list \<noteq> []
      \<and> split_size < fl_total_size list \<and> 32 \<le> unat split_size \<and> obliging h"
  then have nz: "split_size \<noteq> 0" by auto
  have d: "sevenzip_create_7z_streaming CrcCalc Lzma2Enc Lzma2EncMV h prop_byte archive_path
             input_paths level split_size
          = sevenzip_create_multivolume_7z_complete CrcCalc Lzma2EncMV h archive_path
              input_paths level split_size"
    using a nz by (auto simp: sevenzip_create_7z_streaming_def)
  have ne: "gather_entries input_paths [] \<noteq> []"
    using gather_entries_length [of input_paths list] a by auto
  assume "packed_stream CrcCalc Lzma2EncMV (level = SEVENZIP_LEVEL_STORE)
             (gather_entries input_paths []) = None"
  from multivolume_archive(1) [OF _ _ ne this, of h split_size archive_path] a
  show "\<exists>vols. sevenzip_create_7z_streaming CrcCalc Lzma2Enc Lzma2EncMV h prop_byte
                        archive_path input_paths level split_size
                      = Some (SEVENZIP_ERROR_COMPRESS, vols)"
    unfolding d by simp
next
  fix packed entries
  assume a: "gather_input_paths input_paths file_list_init = Some list \<and> fl_paths list \<noteq> []
      \<and> split_size < fl_total_size list \<and> 32 \<le> unat split_size \<and> obliging h"
  then have nz: "split_size \<noteq> 0" by auto
  have d: "sevenzip_create_7z_streaming CrcCalc Lzma2Enc Lzma2EncMV h prop_byte archive_path
             input_paths level split_size
          = sevenzip_create_multivolume_7z_complete CrcCalc Lzma2EncMV h archive_path
              input_paths level split_size"
    using a nz by (auto simp: sevenzip_create_7z_streaming_def)
  have ne: "gather_entries input_paths [] \<noteq> []"
    using gather_entries_length [of input_paths list] a by auto
  assume p: "packed_stream CrcCalc Lzma2EncMV (level = SEVENZIP_LEVEL_STORE)
                  (gather_entries input_paths []) = Some (packed, entries)
              \<and> length (header_bytes entries (of_nat (length packed))) \<le> header_capacity"
  from multivolume_archive(2) [OF _ _ ne, of h split_size CrcCalc Lzma2EncMV level packed
      entries archive_path] a p
  show "\<exists>vols. sevenzip_create_7z_streaming CrcCalc Lzma2Enc Lzma2EncMV h prop_byte
                          archive_path input_paths level split_size
                        = Some (SEVENZIP_OK, vols)
                      \<and> cut_into_volumes (take 1023 archive_path) (unat split_size) vols
                      \<and> concat (map snd vols)
                          = archive_layout CrcCalc packed
                              (header_bytes entries (of_nat (length packed)))"
    unfolding d by simp
qed

lemma length_payload_2000 [simp]: "length payload_2000 = 2000"
  by (simp add: payload_2000_def)

lemma stored_payload_2000 [simp]: "stored_bytes payload_2000 = payload_2000"
  by (simp add: stored_bytes_def)

lemma gather_one_big_file:
  "gather_input_paths one_big_file file_list_init
     = Some \<lparr> fl_paths = [''big.bin''], fl_sizes = [2000], fl_total_size = 2000 \<rparr>"
  by (simp add: one_big_file_def file_list_init_def file_list_add_def)

lemma entries_one_big_file:
  "gather_entries one_big_file []
     = [ADD_FILE_ENTRY ''big.bin'' ''big.bin'' 0x81A4 0 True payload_2000]"
  by (simp add: one_big_file_def path_base_name_def)

lemma stored_one_big_file:
  "packed_stream CrcCalc Lzma2Enc True (gather_entries one_big_file [])
     = Some (payload_2000,
             [ADD_FILE_ENTRY ''big.bin'' ''big.bin'' 0x81A4 0 True payload_2000
                \<lparr> e_crc := CrcCalc payload_2000, e_lzma2_prop := 0 \<rparr>])"
  by (simp add: entries_one_big_file packed_entry_def ADD_FILE_ENTRY_def)

lemma header_of_one_big_file:
  "length (header_bytes
      [ADD_FILE_ENTRY ''big.bin'' ''big.bin'' 0x81A4 0 True payload_2000
         \<lparr> e_crc := c, e_lzma2_prop := 0 \<rparr>] 2000) \<le> header_capacity"
  using varint_k_bound(1) [of 0] varint_k_bound(1) [of 1] varint_k_bound(1) [of 2000]
    varint_k_bound(1) [of 17] varint_k_bound(1) [of 10] varint_k_bound(1) [of 6]
  by (simp add: header_bytes_def header_capacity_def mv_coder_def mv_substreams_info_def
      mv_files_info_def utf16le_name_def ADD_FILE_ENTRY_def length_WriteNumber Let_def)

theorem split_archive_is_cut_into_volumes_witness:
  "(1025 :: 64 word) \<noteq> 0
   \<and> gather_input_paths nothing_there file_list_init = None
   \<and> sevenzip_create_7z_streaming crc32 no_encoder no_encoder obliging_host 0 ''big.7z''
         nothing_there SEVENZIP_LEVEL_STORE 1025
       = Some (SEVENZIP_ERROR_INVALID_PARAM, [])
   \<and> gather_input_paths one_empty_directory file_list_init = Some file_list_init
   \<and> fl_paths file_list_init = []
   \<and> sevenzip_create_7z_streaming crc32 no_encoder no_encoder obliging_host 0 ''big.7z''
         one_empty_directory SEVENZIP_LEVEL_STORE 1025
       = Some (SEVENZIP_ERROR_INVALID_PARAM, [])
   \<and> gather_input_paths one_big_file file_list_init
       = Some \<lparr> fl_paths = [''big.bin''], fl_sizes = [2000], fl_total_size = 2000 \<rparr>
   \<and> (2000 :: 64 word) \<le> 4096
   \<and> sevenzip_create_7z_streaming crc32 no_encoder no_encoder obliging_host 0 ''big.7z''
         one_big_file SEVENZIP_LEVEL_STORE 4096
       = sevenzip_create_7z_streaming crc32 no_encoder no_encoder obliging_host 0 ''big.7z''
           one_big_file SEVENZIP_LEVEL_STORE 0
   \<and> (1025 :: 64 word) < 2000 \<and> 32 \<le> unat (1025 :: 64 word) \<and> obliging obliging_host
   \<and> packed_stream crc32 no_encoder False (gather_entries one_big_file []) = None
   \<and> (\<exists>vols. sevenzip_create_7z_streaming crc32 no_encoder no_encoder obliging_host 0
                 ''big.7z'' one_big_file SEVENZIP_LEVEL_NORMAL 1025
               = Some (SEVENZIP_ERROR_COMPRESS, vols))
   \<and> packed_stream crc32 no_encoder True (gather_entries one_big_file [])
       = Some (payload_2000,
               [ADD_FILE_ENTRY ''big.bin'' ''big.bin'' 0x81A4 0 True payload_2000
                  \<lparr> e_crc := crc32 payload_2000, e_lzma2_prop := 0 \<rparr>])
   \<and> length (header_bytes
         [ADD_FILE_ENTRY ''big.bin'' ''big.bin'' 0x81A4 0 True payload_2000
            \<lparr> e_crc := crc32 payload_2000, e_lzma2_prop := 0 \<rparr>] 2000) \<le> header_capacity
   \<and> (\<exists>vols. sevenzip_create_7z_streaming crc32 no_encoder no_encoder obliging_host 0
                 ''big.7z'' one_big_file SEVENZIP_LEVEL_STORE 1025
               = Some (SEVENZIP_OK, vols)
             \<and> cut_into_volumes ''big.7z'' 1025 vols
             \<and> concat (map snd vols)
                 = archive_layout crc32 payload_2000
                     (header_bytes
                        [ADD_FILE_ENTRY ''big.bin'' ''big.bin'' 0x81A4 0 True payload_2000
                           \<lparr> e_crc := crc32 payload_2000, e_lzma2_prop := 0 \<rparr>] 2000))"
proof -
  let ?L = "\<lparr> fl_paths = [''big.bin''], fl_sizes = [2000], fl_total_size = (2000 :: 64 word) \<rparr>"
  let ?E = "ADD_FILE_ENTRY ''big.bin'' ''big.bin'' 0x81A4 0 True payload_2000
              \<lparr> e_crc := crc32 payload_2000, e_lzma2_prop := 0 \<rparr>"
  have n: "(1025 :: 64 word) \<noteq> 0" "(2000 :: 64 word) \<le> 4096" "(1025 :: 64 word) < 2000"
    "32 \<le> unat (1025 :: 64 word)" "unat (1025 :: 64 word) = 1025"
    by simp_all
  have ob: "obliging obliging_host"
    by (simp add: obliging_def obliging_host_def)
  have g1: "gather_input_paths nothing_there file_list_init = None"
    by (simp add: nothing_there_def)
  have g2: "gather_input_paths one_empty_directory file_list_init = Some file_list_init"
    "fl_paths file_list_init = []"
    by (simp_all add: one_empty_directory_def file_list_init_def)
  have p1: "packed_stream crc32 no_encoder False (gather_entries one_big_file []) = None"
    by (simp add: entries_one_big_file packed_entry_def ADD_FILE_ENTRY_def no_encoder_def
        payload_2000_def mv_is_data_compressible_def)
  note p2 = stored_one_big_file [of crc32 no_encoder]
  note hl = header_of_one_big_file [of "crc32 payload_2000"]
  note t1 = split_archive_is_cut_into_volumes [where input_paths = nothing_there
      and split_size = 1025 and CrcCalc = crc32 and Lzma2Enc = no_encoder
      and Lzma2EncMV = no_encoder and h = obliging_host and prop_byte = 0
      and archive_path = "''big.7z''" and level = SEVENZIP_LEVEL_STORE]
  note t2 = split_archive_is_cut_into_volumes [where input_paths = one_empty_directory
      and list = file_list_init
      and split_size = 1025 and CrcCalc = crc32 and Lzma2Enc = no_encoder
      and Lzma2EncMV = no_encoder and h = obliging_host and prop_byte = 0
      and archive_path = "''big.7z''" and level = SEVENZIP_LEVEL_STORE]
  note t3 = split_archive_is_cut_into_volumes [where input_paths = one_big_file
      and list = ?L
      and split_size = 4096 and CrcCalc = crc32 and Lzma2Enc = no_encoder
      and Lzma2EncMV = no_encoder and h = obliging_host and prop_byte = 0
      and archive_path = "''big.7z''" and level = SEVENZIP_LEVEL_STORE]
  note t4 = split_archive_is_cut_into_volumes [where input_paths = one_big_file
      and list = ?L
      and split_size = 1025 and CrcCalc = crc32 and Lzma2Enc = no_encoder
      and Lzma2EncMV = no_encoder and h = obliging_host and prop_byte = 0
      and archive_path = "''big.7z''" and level = SEVENZIP_LEVEL_NORMAL]
  note t5 = split_archive_is_cut_into_volumes [where input_paths = one_big_file
      and list = ?L
      and split_size = 1025 and CrcCalc = crc32 and Lzma2Enc = no_encoder
      and Lzma2EncMV = no_encoder and h = obliging_host and prop_byte = 0
      and archive_path = "''big.7z''" and level = SEVENZIP_LEVEL_STORE]
  have a1: "sevenzip_create_7z_streaming crc32 no_encoder no_encoder obliging_host 0 ''big.7z''
         nothing_there SEVENZIP_LEVEL_STORE 1025
       = Some (SEVENZIP_ERROR_INVALID_PARAM, [])"
    using t1 g1 n by simp
  have a2: "sevenzip_create_7z_streaming crc32 no_encoder no_encoder obliging_host 0 ''big.7z''
         one_empty_directory SEVENZIP_LEVEL_STORE 1025
       = Some (SEVENZIP_ERROR_INVALID_PARAM, [])"
    using t2 g2 n by simp
  have a3: "sevenzip_create_7z_streaming crc32 no_encoder no_encoder obliging_host 0 ''big.7z''
         one_big_file SEVENZIP_LEVEL_STORE 4096
       = sevenzip_create_7z_streaming crc32 no_encoder no_encoder obliging_host 0 ''big.7z''
           one_big_file SEVENZIP_LEVEL_STORE 0"
    using t3 gather_one_big_file n by simp
  have a4: "\<exists>vols. sevenzip_create_7z_streaming crc32 no_encoder no_encoder obliging_host 0
                 ''big.7z'' one_big_file SEVENZIP_LEVEL_NORMAL 1025
               = Some (SEVENZIP_ERROR_COMPRESS, vols)"
    using t4 gather_one_big_file n ob p1 by simp
  from t5 gather_one_big_file n ob
  have "\<forall>packed entries.
              packed_stream crc32 no_encoder True (gather_entries one_big_file [])
                = Some (packed, entries)
              \<and> length (header_bytes entries (of_nat (length packed))) \<le> header_capacity
            \<longrightarrow> (\<exists>vols. sevenzip_create_7z_streaming crc32 no_encoder no_encoder obliging_host 0
                          ''big.7z'' one_big_file SEVENZIP_LEVEL_STORE 1025
                        = Some (SEVENZIP_OK, vols)
                      \<and> cut_into_volumes ''big.7z'' 1025 vols
                      \<and> concat (map snd vols)
                          = archive_layout crc32 packed
                              (header_bytes entries (of_nat (length packed))))"
    by simp
  from this [rule_format, of payload_2000 "[?E]"] p2 hl
  have a5: "\<exists>vols. sevenzip_create_7z_streaming crc32 no_encoder no_encoder obliging_host 0
                 ''big.7z'' one_big_file SEVENZIP_LEVEL_STORE 1025
               = Some (SEVENZIP_OK, vols)
             \<and> cut_into_volumes ''big.7z'' 1025 vols
             \<and> concat (map snd vols)
                 = archive_layout crc32 payload_2000 (header_bytes [?E] 2000)"
    by simp
  show ?thesis
    using n ob g1 g2 gather_one_big_file p1 p2 hl a1 a2 a3 a4 a5 by simp
qed

text \<open>Both Header Blocks end with the attributes of the last entry.\<close>

lemma header_block_end:
  assumes "files builder \<noteq> []"
  shows "\<exists>pre. header_block builder n = pre @ le32 (f_attrib (last (files builder))) @ [0, 0]"
proof -
  from assms have "files builder = butlast (files builder) @ [last (files builder)]" by simp
  then have "concat (map (\<lambda>f. le32 (f_attrib f)) (files builder))
      = concat (map (\<lambda>f. le32 (f_attrib f)) (butlast (files builder)))
        @ le32 (f_attrib (last (files builder)))"
    by (metis (no_types, lifting) append_Nil2 concat.simps(1) concat.simps(2) concat_append
        list.simps(8) list.simps(9) map_append)
  then show ?thesis
    by (simp add: header_block_def files_info_def attrib_property_def)
qed

lemma header_bytes_end:
  assumes "fs \<noteq> []"
  shows "\<exists>pre. header_bytes fs n = pre @ le32 (e_attrib (last fs)) @ [0, 0]"
proof -
  from assms have "fs = butlast fs @ [last fs]" by simp
  then have "concat (map (\<lambda>f. le32 (e_attrib f)) fs)
      = concat (map (\<lambda>f. le32 (e_attrib f)) (butlast fs)) @ le32 (e_attrib (last fs))"
    by (metis (no_types, lifting) append_Nil2 concat.simps(1) concat.simps(2) concat_append
        list.simps(8) list.simps(9) map_append)
  then show ?thesis
    by (simp add: header_bytes_def mv_files_info_def Let_def)
qed

lemma archive_layout_end:
  "header = pre @ t \<Longrightarrow> \<exists>pre'. archive_layout CrcCalc pack header = pre' @ t"
  by (simp add: archive_layout_def Let_def)

lemma single_archive_of_one_big_file:
  "\<exists>pre. sevenzip_create_7z crc32 no_encoder 0 ''big.7z'' one_big_file SEVENZIP_LEVEL_STORE
     = (SEVENZIP_OK, [(''big.7z'', pre @ le32 0x81A4 @ [0, 0])])"
proof -
  define entry where "entry = \<lparr> f_name = ''big.bin'', f_size = 2000, f_pack_size = 2000,
      f_mtime = filetime 0, f_attrib = 0x81A4, f_crc = 0, f_data = Some payload_2000,
      f_is_dir = False \<rparr>"
  define builder where "builder = \<lparr> files = [entry], lzma2_prop_byte = 0,
      use_copy_codec = True \<rparr>"
  define builder' where "builder' = \<lparr> files = [entry \<lparr> f_crc := crc32 payload_2000 \<rparr>],
      lzma2_prop_byte = 0, use_copy_codec = True \<rparr>"
  have a: "add_input_paths [] one_big_file = Inr [entry]"
    by (simp add: one_big_file_def input_file_name_def entry_def)
  have c: "compress_all_files crc32 no_encoder builder
             = Inr (builder', payload_2000, length payload_2000)"
    by (simp add: compress_all_files_def builder_def builder'_def entry_def Let_def)
  have h: "length (header_block builder' (length payload_2000)) \<le> 65536"
    by (simp add: header_block_def pack_info_def unpack_info_def coder_spec_def
        substreams_info_def substream_sizes_def files_info_def empty_stream_property_def
        names_property_def mtime_property_def attrib_property_def utf16le_name_def
        builder'_def entry_def WriteNumber_def)
  from header_block_end [of builder' "length payload_2000"]
  obtain pre where "header_block builder' (length payload_2000) = pre @ le32 0x81A4 @ [0, 0]"
    by (auto simp: builder'_def entry_def)
  from archive_layout_end [OF this, of crc32 payload_2000]
  obtain pre' where
    "archive_layout crc32 payload_2000 (header_block builder' (length payload_2000))
       = pre' @ le32 0x81A4 @ [0, 0]"
    by blast
  with write_7z_archive_ok [OF c h]
  have "sevenzip_create_7z crc32 no_encoder 0 ''big.7z'' one_big_file SEVENZIP_LEVEL_STORE
     = (SEVENZIP_OK, [(''big.7z'', pre' @ le32 0x81A4 @ [0, 0])])"
    by (simp add: sevenzip_create_7z_def a builder_def [symmetric])
  then show ?thesis by blast
qed

lemma split_archive_of_one_big_file:
  "\<exists>vols pre. sevenzip_create_multivolume_7z_complete crc32 no_encoder obliging_host ''big.7z''
       one_big_file SEVENZIP_LEVEL_STORE 1025 = Some (SEVENZIP_OK, vols)
     \<and> concat (map snd vols) = pre @ le32 0x20 @ [0, 0]"
proof -
  let ?E = "ADD_FILE_ENTRY ''big.bin'' ''big.bin'' 0x81A4 0 True payload_2000
              \<lparr> e_crc := crc32 payload_2000, e_lzma2_prop := 0 \<rparr>"
  have ob: "obliging obliging_host"
    by (simp add: obliging_def obliging_host_def)
  have s: "32 \<le> unat (1025 :: 64 word)" by simp
  have ne: "gather_entries one_big_file [] \<noteq> []" by (simp add: entries_one_big_file)
  have p: "packed_stream crc32 no_encoder (SEVENZIP_LEVEL_STORE = SEVENZIP_LEVEL_STORE)
             (gather_entries one_big_file []) = Some (payload_2000, [?E])"
    using stored_one_big_file [of crc32 no_encoder] by simp
  have hl: "length (header_bytes [?E] (of_nat (length payload_2000))) \<le> header_capacity"
    using header_of_one_big_file [of "crc32 payload_2000"] by simp
  from multivolume_archive(2) [OF ob s ne p hl, of "''big.7z''"]
  obtain vols where
    v: "sevenzip_create_multivolume_7z_complete crc32 no_encoder obliging_host ''big.7z''
       one_big_file SEVENZIP_LEVEL_STORE 1025 = Some (SEVENZIP_OK, vols)"
    and c: "concat (map snd vols)
              = archive_layout crc32 payload_2000
                  (header_bytes [?E] (of_nat (length payload_2000)))"
    by blast
  have "e_attrib (last [?E]) = 0x20"
    by (simp add: ADD_FILE_ENTRY_def S_IWUSR_def)
  with header_bytes_end [of "[?E]" "of_nat (length payload_2000)"]
  obtain pre where
    "header_bytes [?E] (of_nat (length payload_2000)) = pre @ le32 0x20 @ [0, 0]"
    by auto
  from archive_layout_end [OF this, of crc32 payload_2000] c
  obtain pre' where "concat (map snd vols) = pre' @ le32 0x20 @ [0, 0]" by auto
  with v show ?thesis by blast
qed

text \<open>
  C6 as stated fails: for one regular file of 2000 bytes with the mode \<^verbatim>\<open>0100644\<close>, the level
  \<^verbatim>\<open>SEVENZIP_LEVEL_STORE\<close> and the split size 1025, the concatenation of the volumes is not
  the archive written with the split size 0. The attributes of the file are \<^verbatim>\<open>st_mode\<close> in
  the one and \<^verbatim>\<open>FILE_ATTRIBUTE_ARCHIVE\<close> in the other.
\<close>

theorem split_volumes_differ_from_single_archive:
  "\<exists>single vols.
     sevenzip_create_7z_streaming crc32 no_encoder no_encoder obliging_host 0 ''big.7z''
       one_big_file SEVENZIP_LEVEL_STORE 0 = Some (SEVENZIP_OK, [(''big.7z'', single)])
     \<and> (1024 :: 64 word) < 1025
     \<and> sevenzip_create_7z_streaming crc32 no_encoder no_encoder obliging_host 0 ''big.7z''
         one_big_file SEVENZIP_LEVEL_STORE 1025 = Some (SEVENZIP_OK, vols)
     \<and> concat (map snd vols) \<noteq> single"
proof -
  from single_archive_of_one_big_file obtain pre where
    s: "sevenzip_create_7z crc32 no_encoder 0 ''big.7z'' one_big_file SEVENZIP_LEVEL_STORE
     = (SEVENZIP_OK, [(''big.7z'', pre @ le32 0x81A4 @ [0, 0])])"
    by blast
  from split_archive_of_one_big_file obtain vols pre' where
    v: "sevenzip_create_multivolume_7z_complete crc32 no_encoder obliging_host ''big.7z''
       one_big_file SEVENZIP_LEVEL_STORE 1025 = Some (SEVENZIP_OK, vols)"
    and c: "concat (map snd vols) = pre' @ le32 0x20 @ [0, 0]"
    by blast
  have "le32 0x20 ! 0 \<noteq> le32 0x81A4 ! 0"
    by (simp add: le32_def)
  then have "le32 0x20 @ [0, 0 :: byte] \<noteq> le32 0x81A4 @ [0, 0]"
    by auto
  moreover have "length (le32 0x20 @ [0, 0 :: byte]) = length (le32 0x81A4 @ [0, 0 :: byte])"
    by simp
  ultimately have d: "pre' @ le32 0x20 @ [0, 0] \<noteq> pre @ le32 0x81A4 @ [0, 0]"
    using append_eq_append_conv [of pre' pre "le32 0x20 @ [0, 0 :: byte]" "le32 0x81A4 @ [0, 0]"]
    by blast
  have 1: "sevenzip_create_7z_streaming crc32 no_encoder no_encoder obliging_host 0 ''big.7z''
       one_big_file SEVENZIP_LEVEL_STORE 0
         = Some (SEVENZIP_OK, [(''big.7z'', pre @ le32 0x81A4 @ [0, 0])])"
    by (simp add: sevenzip_create_7z_streaming_def s)
  have 2: "sevenzip_create_7z_streaming crc32 no_encoder no_encoder obliging_host 0 ''big.7z''
         one_big_file SEVENZIP_LEVEL_STORE 1025 = Some (SEVENZIP_OK, vols)"
    by (simp add: sevenzip_create_7z_streaming_def gather_one_big_file v)
  show ?thesis
    using 1 2 c d by (intro exI [of _ "pre @ le32 0x81A4 @ [0, 0]"] exI [of _ vols]) simp
qed

end
